theory Spec2Isabelle
  imports Complex_Main "HOL-Library.AList" "HOL-Library.Product_Lexorder"
begin

section \<open>Python strings\<close>

text \<open>
  A Python \<open>str\<close> is modelled as a \<^typ>\<open>string\<close> whose characters are the code
  points U+0000 .. U+00FF. The functions below are the \<open>str\<close> methods that
  \<open>seo_audit.py\<close> and the URL functions of the standard library call.
\<close>

text \<open>\<open>str.isspace\<close> on one character (the code points below 256 it holds for).\<close>

definition py_space_chars :: "char list" where
  "py_space_chars =
     [CHR 0x09, CHR 0x0A, CHR 0x0B, CHR 0x0C, CHR 0x0D, CHR 0x1C, CHR 0x1D, CHR 0x1E,
      CHR 0x1F, CHR 0x20, CHR 0x85, CHR 0xA0]"

definition is_space :: "char \<Rightarrow> bool" where
  "is_space c = (c \<in> set py_space_chars)"

definition lstrip_with :: "(char \<Rightarrow> bool) \<Rightarrow> string \<Rightarrow> string" where
  "lstrip_with P s = dropWhile P s"

definition rstrip_with :: "(char \<Rightarrow> bool) \<Rightarrow> string \<Rightarrow> string" where
  "rstrip_with P s = rev (dropWhile P (rev s))"

definition strip_with :: "(char \<Rightarrow> bool) \<Rightarrow> string \<Rightarrow> string" where
  "strip_with P s = rstrip_with P (lstrip_with P s)"

text \<open>\<open>s.strip()\<close>\<close>

definition py_strip :: "string \<Rightarrow> string" where
  "py_strip s = strip_with is_space s"

text \<open>\<open>s.startswith(p)\<close>\<close>

definition startswith :: "string \<Rightarrow> string \<Rightarrow> bool" where
  "startswith s p = (take (length p) s = p)"

text \<open>\<open>s.lower()\<close>: the letters A-Z and the upper-case letters of Latin-1.\<close>

definition upper_chars :: "char list" where
  "upper_chars = ''ABCDEFGHIJKLMNOPQRSTUVWXYZ'' @
     [CHR 0xC0, CHR 0xC1, CHR 0xC2, CHR 0xC3, CHR 0xC4, CHR 0xC5, CHR 0xC6, CHR 0xC7,
      CHR 0xC8, CHR 0xC9, CHR 0xCA, CHR 0xCB, CHR 0xCC, CHR 0xCD, CHR 0xCE, CHR 0xCF,
      CHR 0xD0, CHR 0xD1, CHR 0xD2, CHR 0xD3, CHR 0xD4, CHR 0xD5, CHR 0xD6,
      CHR 0xD8, CHR 0xD9, CHR 0xDA, CHR 0xDB, CHR 0xDC, CHR 0xDD, CHR 0xDE]"

definition lower_chars :: "char list" where
  "lower_chars = ''abcdefghijklmnopqrstuvwxyz'' @
     [CHR 0xE0, CHR 0xE1, CHR 0xE2, CHR 0xE3, CHR 0xE4, CHR 0xE5, CHR 0xE6, CHR 0xE7,
      CHR 0xE8, CHR 0xE9, CHR 0xEA, CHR 0xEB, CHR 0xEC, CHR 0xED, CHR 0xEE, CHR 0xEF,
      CHR 0xF0, CHR 0xF1, CHR 0xF2, CHR 0xF3, CHR 0xF4, CHR 0xF5, CHR 0xF6,
      CHR 0xF8, CHR 0xF9, CHR 0xFA, CHR 0xFB, CHR 0xFC, CHR 0xFD, CHR 0xFE]"

definition lower_char :: "char \<Rightarrow> char" where
  "lower_char c = (case map_of (zip upper_chars lower_chars) c of Some d \<Rightarrow> d | None \<Rightarrow> c)"

definition py_lower :: "string \<Rightarrow> string" where
  "py_lower s = map lower_char s"

text \<open>\<open>s.split(sep)\<close> for a one-character separator: always at least one piece.\<close>

fun split_on :: "char \<Rightarrow> string \<Rightarrow> string list" where
  "split_on sep [] = [[]]"
| "split_on sep (c # cs) =
     (if c = sep then [] # split_on sep cs
      else (case split_on sep cs of [] \<Rightarrow> [[c]] | p # ps \<Rightarrow> (c # p) # ps))"

text \<open>\<open>sep.join(parts)\<close>\<close>

fun join :: "string \<Rightarrow> string list \<Rightarrow> string" where
  "join sep [] = []"
| "join sep [p] = p"
| "join sep (p # q # ps) = p @ sep @ join sep (q # ps)"

text \<open>\<open>s.split()\<close>: the maximal runs of characters that are not whitespace.\<close>

fun split_ws_acc :: "string \<Rightarrow> string \<Rightarrow> string list" where
  "split_ws_acc cur [] = (if cur = [] then [] else [rev cur])"
| "split_ws_acc cur (c # cs) =
     (if is_space c then (if cur = [] then split_ws_acc [] cs else rev cur # split_ws_acc [] cs)
      else split_ws_acc (c # cur) cs)"

definition py_split :: "string \<Rightarrow> string list" where
  "py_split s = split_ws_acc [] s"

text \<open>
  \<open>re.findall\<close> for a pattern \<open>[class]{2,}\<close>: the maximal runs of characters of the class,
  from left to right, that are at least two characters long.
\<close>

fun runs_acc :: "(char \<Rightarrow> bool) \<Rightarrow> string \<Rightarrow> string \<Rightarrow> string list" where
  "runs_acc P cur [] = (if 2 \<le> length cur then [rev cur] else [])"
| "runs_acc P cur (c # cs) =
     (if P c then runs_acc P (c # cur) cs
      else (if 2 \<le> length cur then rev cur # runs_acc P [] cs else runs_acc P [] cs))"

definition findall_runs :: "(char \<Rightarrow> bool) \<Rightarrow> string \<Rightarrow> string list" where
  "findall_runs P s = runs_acc P [] s"

definition ascii_letters :: "char list" where
  "ascii_letters = ''abcdefghijklmnopqrstuvwxyzABCDEFGHIJKLMNOPQRSTUVWXYZ''"

definition ascii_digits :: "char list" where
  "ascii_digits = ''0123456789''"

definition is_ascii_letter :: "char \<Rightarrow> bool" where
  "is_ascii_letter c = (c \<in> set ascii_letters)"

text \<open>\<open>WORD_RE = re.compile(r"[a-zA-Z]{2,}")\<close>, used through \<open>WORD_RE.findall\<close>.\<close>

definition WORD_RE_findall :: "string \<Rightarrow> string list" where
  "WORD_RE_findall s = findall_runs is_ascii_letter s"

text \<open>\<open>re.findall(r"[a-zA-Z0-9\-\_ ]{2,}", s)\<close>\<close>

definition is_phrase_char :: "char \<Rightarrow> bool" where
  "is_phrase_char c = (c \<in> set (ascii_letters @ ascii_digits @ ''-_ ''))"

definition phrase_findall :: "string \<Rightarrow> string list" where
  "phrase_findall s = findall_runs is_phrase_char s"

section \<open>The world outside the program\<close>

text \<open>
  Errors are values. \<open>ValueError\<close> is what \<open>urllib.parse\<close> raises on a malformed network
  location and what \<open>ThreadPoolExecutor\<close> raises on a non-positive pool size;
  \<open>KeyError\<close> is a read of a dictionary key that is absent.
\<close>

datatype py_error = ValueError | KeyError

text \<open>
  What \<open>session.get\<close> of \<open>requests\<close> hands back: \<open>r.status_code\<close>, \<open>r.text\<close>, \<open>r.url\<close>,
  \<open>r.headers\<close>, and the seconds that \<open>fetch\<close> measures around the request.
\<close>

record response =
  r_status_code :: int
  r_text :: string
  r_url :: string
  r_headers :: "(string \<times> string) list"
  r_seconds :: real

text \<open>
  The document tree that \<open>BeautifulSoup(html, 'html.parser')\<close> builds, seen through the
  queries that \<open>extract_onpage\<close> makes. A tag is its attribute dictionary.
  \<^item> \<open>soup_title\<close>: \<open>None\<close> when \<open>soup.title\<close> is \<open>None\<close>, else \<open>Some\<close> of \<open>soup.title.string\<close>;
  \<^item> \<open>soup_metas\<close>: \<open>soup.find_all('meta')\<close>, in document order;
  \<^item> \<open>soup_canonical\<close>: \<open>soup.find('link', rel=...)\<close> with the canonical predicate;
  \<^item> \<open>soup_h1\<close>, \<open>soup_h2\<close>: \<open>get_text(strip=True)\<close> of each heading;
  \<^item> \<open>soup_imgs\<close>: \<open>soup.find_all('img')\<close>;
  \<^item> \<open>soup_anchors\<close>: each \<open>a\<close> tag with its \<open>get_text(strip=True)\<close>;
  \<^item> \<open>soup_ldjson\<close>: for each JSON-LD script, the value \<open>json.loads\<close> returns (kept as
    text), or \<open>None\<close> when it raises;
  \<^item> \<open>soup_text\<close>: \<open>get_text(separator=' ', strip=True)\<close> once the script, style and
    noscript subtrees are removed.
\<close>

type_synonym attrs = "(string \<times> string) list"

record soup =
  soup_title :: "string option option"
  soup_metas :: "attrs list"
  soup_canonical :: "attrs option"
  soup_h1 :: "string list"
  soup_h2 :: "string list"
  soup_imgs :: "attrs list"
  soup_anchors :: "(attrs \<times> string) list"
  soup_ldjson :: "string option list"
  soup_text :: string

datatype ip_kind = IPv4Address | IPv6Address

text \<open>
  The capabilities the program consumes and does not implement:
  \<^item> \<open>ip_address\<close>: \<open>ipaddress.ip_address\<close>, \<open>None\<close> when it raises \<open>ValueError\<close>;
  \<^item> \<open>nfkc\<close>: \<open>unicodedata.normalize('NFKC', _)\<close>;
  \<^item> \<open>tld_extract\<close>: \<open>tldextract.extract\<close>, its \<open>domain\<close> and \<open>suffix\<close> fields;
  \<^item> \<open>http_get\<close>: \<open>session.get(url, timeout=timeout)\<close>, \<open>Inl\<close> the text of the exception;
  \<^item> \<open>soup_parse\<close>: the HTML parser;
  \<^item> \<open>finish_time\<close>: the instant at which the fetch of an address completes; it fixes
    the order in which \<open>as_completed\<close> yields the futures of one round.
\<close>

record env =
  ip_address :: "string \<Rightarrow> ip_kind option"
  nfkc :: "string \<Rightarrow> string"
  tld_extract :: "string \<Rightarrow> string \<times> string"
  http_get :: "string \<Rightarrow> string + response"
  soup_parse :: "string \<Rightarrow> soup"
  finish_time :: "string \<Rightarrow> nat"

section \<open>\<open>urllib.parse\<close> (CPython 3.11), for \<open>str\<close> arguments\<close>

definition uses_relative :: "string list" where
  "uses_relative = ['''', ''ftp'', ''http'', ''gopher'', ''nntp'', ''imap'',
     ''wais'', ''file'', ''https'', ''shttp'', ''mms'',
     ''prospero'', ''rtsp'', ''rtsps'', ''rtspu'', ''sftp'',
     ''svn'', ''svn+ssh'', ''ws'', ''wss'']"

definition uses_netloc :: "string list" where
  "uses_netloc = ['''', ''ftp'', ''http'', ''gopher'', ''nntp'', ''telnet'',
     ''imap'', ''wais'', ''file'', ''mms'', ''https'', ''shttp'',
     ''snews'', ''prospero'', ''rtsp'', ''rtsps'', ''rtspu'', ''rsync'',
     ''svn'', ''svn+ssh'', ''sftp'', ''nfs'', ''git'', ''git+ssh'',
     ''ws'', ''wss'']"

definition uses_params :: "string list" where
  "uses_params = ['''', ''ftp'', ''hdl'', ''prospero'', ''http'', ''imap'',
     ''https'', ''shttp'', ''rtsp'', ''rtsps'', ''rtspu'', ''sip'',
     ''sips'', ''mms'', ''sftp'', ''tel'']"

definition scheme_chars :: "char list" where
  "scheme_chars = ''abcdefghijklmnopqrstuvwxyz'' @ ''ABCDEFGHIJKLMNOPQRSTUVWXYZ'' @
     ''0123456789'' @ ''+-.''"

text \<open>\<open>_WHATWG_C0_CONTROL_OR_SPACE\<close>: the code points 0 to 0x20.\<close>

definition c0_control_or_space :: "char \<Rightarrow> bool" where
  "c0_control_or_space c = ((of_char c :: nat) \<le> 32)"

text \<open>\<open>_UNSAFE_URL_BYTES_TO_REMOVE\<close>\<close>

definition unsafe_url_bytes :: "char list" where
  "unsafe_url_bytes = [CHR 0x09, CHR 0x0D, CHR 0x0A]"

definition is_ascii :: "char \<Rightarrow> bool" where
  "is_ascii c = ((of_char c :: nat) < 128)"

text \<open>\<open>s.split(c, 1)\<close> when \<open>c\<close> is in \<open>s\<close>: the text before the first \<open>c\<close> and the text after it.\<close>

definition text_before :: "char \<Rightarrow> string \<Rightarrow> string" where
  "text_before c s = takeWhile (\<lambda>x. x \<noteq> c) s"

definition text_after :: "char \<Rightarrow> string \<Rightarrow> string" where
  "text_after c s = drop 1 (dropWhile (\<lambda>x. x \<noteq> c) s)"

record split_result =
  sr_scheme :: string
  sr_netloc :: string
  sr_path :: string
  sr_query :: string
  sr_fragment :: string

record parse_result =
  pr_scheme :: string
  pr_netloc :: string
  pr_path :: string
  pr_params :: string
  pr_query :: string
  pr_fragment :: string

text \<open>\<open>_splitnetloc(url, start)\<close>\<close>

definition splitnetloc :: "string \<Rightarrow> nat \<Rightarrow> string \<times> string" where
  "splitnetloc url start =
     (takeWhile (\<lambda>c. c \<notin> set ''/?#'') (drop start url),
      dropWhile (\<lambda>c. c \<notin> set ''/?#'') (drop start url))"

text \<open>\<open>_checknetloc(netloc)\<close>: \<open>True\<close> when it returns, \<open>False\<close> when it raises \<open>ValueError\<close>.\<close>

definition checknetloc :: "env \<Rightarrow> string \<Rightarrow> bool" where
  "checknetloc env netloc =
     (if netloc = [] then True
      else if list_all is_ascii netloc then True
      else (let n = filter (\<lambda>c. c \<notin> set ''@:#?'') netloc;
                netloc2 = nfkc env n
            in if n = netloc2 then True
               else \<not> list_ex (\<lambda>c. c \<in> set netloc2) ''/?#@:''))"

text \<open>The match of \<open>re.match(r"\Av[a-fA-F0-9]+\..+\Z", hostname)\<close>.\<close>

definition is_hex_digit :: "char \<Rightarrow> bool" where
  "is_hex_digit c = (c \<in> set ''abcdefABCDEF0123456789'')"

definition ipvfuture_match :: "string \<Rightarrow> bool" where
  "ipvfuture_match h =
     (let rest = drop 1 h;
          digits = takeWhile is_hex_digit rest;
          tail = dropWhile is_hex_digit rest
      in take 1 h = ''v'' \<and> digits \<noteq> [] \<and> take 1 tail = ''.'' \<and> drop 1 tail \<noteq> []
         \<and> CHR 0x0A \<notin> set (drop 1 tail))"

text \<open>\<open>_check_bracketed_host(hostname)\<close>: \<open>True\<close> when it returns, \<open>False\<close> when it raises.\<close>

definition check_bracketed_host :: "env \<Rightarrow> string \<Rightarrow> bool" where
  "check_bracketed_host env hostname =
     (if startswith hostname ''v'' then ipvfuture_match hostname
      else (case ip_address env hostname of
              None \<Rightarrow> False
            | Some IPv4Address \<Rightarrow> False
            | Some IPv6Address \<Rightarrow> True))"

text \<open>The tail of \<open>urlsplit\<close>: fragment, query, \<open>_checknetloc\<close>.\<close>

definition split_rest :: "env \<Rightarrow> string \<Rightarrow> string \<Rightarrow> string \<Rightarrow> py_error + split_result" where
  "split_rest env scheme netloc url =
     (let fragment = (if CHR ''#'' \<in> set url then text_after (CHR ''#'') url else []);
          url1 = (if CHR ''#'' \<in> set url then text_before (CHR ''#'') url else url);
          query = (if CHR ''?'' \<in> set url1 then text_after (CHR ''?'') url1 else []);
          url2 = (if CHR ''?'' \<in> set url1 then text_before (CHR ''?'') url1 else url1)
      in if checknetloc env netloc
         then Inr \<lparr>sr_scheme = scheme, sr_netloc = netloc, sr_path = url2,
                    sr_query = query, sr_fragment = fragment\<rparr>
         else Inl ValueError)"

text \<open>The scheme test of \<open>urlsplit\<close>: \<open>i > 0\<close>, a first character that is an ASCII letter,
  and only scheme characters before the colon.\<close>

definition has_scheme :: "string \<Rightarrow> bool" where
  "has_scheme url =
     (CHR '':'' \<in> set url \<and> text_before (CHR '':'') url \<noteq> [] \<and> is_ascii_letter (hd url)
      \<and> list_all (\<lambda>c. c \<in> set scheme_chars) (text_before (CHR '':'') url))"

text \<open>\<open>urlsplit(url, scheme)\<close> with \<open>allow_fragments=True\<close>.\<close>

definition urlsplit :: "env \<Rightarrow> string \<Rightarrow> string \<Rightarrow> py_error + split_result" where
  "urlsplit env url0 scheme0 =
     (let url1 = filter (\<lambda>c. c \<notin> set unsafe_url_bytes) (lstrip_with c0_control_or_space url0);
          scheme1 = filter (\<lambda>c. c \<notin> set unsafe_url_bytes) (strip_with c0_control_or_space scheme0);
          scheme = (if has_scheme url1 then py_lower (text_before (CHR '':'') url1) else scheme1);
          url = (if has_scheme url1 then text_after (CHR '':'') url1 else url1)
      in if take 2 url = ''//''
         then (let netloc = fst (splitnetloc url 2);
                   rest = snd (splitnetloc url 2);
                   lb = (CHR ''['' \<in> set netloc);
                   rb = (CHR '']'' \<in> set netloc)
               in if lb \<and> \<not> rb then Inl ValueError
                  else if rb \<and> \<not> lb then Inl ValueError
                  else if lb \<and> rb \<and>
                      \<not> check_bracketed_host env (text_before (CHR '']'') (text_after (CHR ''['') netloc))
                  then Inl ValueError
                  else split_rest env scheme netloc rest)
         else split_rest env scheme [] url)"

text \<open>\<open>_splitparams(url)\<close>\<close>

definition splitparams :: "string \<Rightarrow> string \<times> string" where
  "splitparams url =
     (if CHR ''/'' \<in> set url
      then (let tail = rev (takeWhile (\<lambda>c. c \<noteq> CHR ''/'') (rev url));
                head = take (length url - length tail) url
            in if CHR '';'' \<in> set tail
               then (head @ text_before (CHR '';'') tail, text_after (CHR '';'') tail)
               else (url, []))
      else if CHR '';'' \<in> set url then (text_before (CHR '';'') url, text_after (CHR '';'') url)
      else (butlast url, url))"

text \<open>\<open>urlparse(url, scheme)\<close>\<close>

definition urlparse :: "env \<Rightarrow> string \<Rightarrow> string \<Rightarrow> py_error + parse_result" where
  "urlparse env url scheme =
     (case urlsplit env url scheme of
        Inl e \<Rightarrow> Inl e
      | Inr sr \<Rightarrow>
          (let split = (sr_scheme sr \<in> set uses_params \<and> CHR '';'' \<in> set (sr_path sr))
           in Inr \<lparr>pr_scheme = sr_scheme sr, pr_netloc = sr_netloc sr,
                    pr_path = (if split then fst (splitparams (sr_path sr)) else sr_path sr),
                    pr_params = (if split then snd (splitparams (sr_path sr)) else []),
                    pr_query = sr_query sr, pr_fragment = sr_fragment sr\<rparr>))"

text \<open>\<open>urlunsplit((scheme, netloc, url, query, fragment))\<close>\<close>

definition urlunsplit :: "string \<Rightarrow> string \<Rightarrow> string \<Rightarrow> string \<Rightarrow> string \<Rightarrow> string" where
  "urlunsplit scheme netloc url query fragment =
     (let slashed = (if url = [] then url else if take 1 url = ''/'' then url else ''/'' @ url);
          url1 = (if netloc = []
                  then (if scheme = [] then (if take 2 url = ''//'' then ''//'' @ slashed else url)
                        else if scheme \<in> set uses_netloc then ''//'' @ slashed
                        else if take 2 url = ''//'' then ''//'' @ slashed
                        else url)
                  else ''//'' @ netloc @ slashed);
          url2 = (if scheme = [] then url1 else scheme @ '':'' @ url1);
          url3 = (if query = [] then url2 else url2 @ ''?'' @ query)
      in if fragment = [] then url3 else url3 @ ''#'' @ fragment)"

text \<open>\<open>urlunparse(components)\<close>, which is also \<open>ParseResult.geturl\<close>.\<close>

definition urlunparse :: "parse_result \<Rightarrow> string" where
  "urlunparse p =
     urlunsplit (pr_scheme p) (pr_netloc p)
       (if pr_params p = [] then pr_path p else pr_path p @ '';'' @ pr_params p)
       (pr_query p) (pr_fragment p)"

text \<open>\<open>segments[1:-1] = filter(None, segments[1:-1])\<close>\<close>

definition filter_middle :: "string list \<Rightarrow> string list" where
  "filter_middle segments =
     (case segments of
        [] \<Rightarrow> []
      | [x] \<Rightarrow> [x]
      | x # rest \<Rightarrow> x # filter (\<lambda>s. s \<noteq> []) (butlast rest) @ [last rest])"

text \<open>The loop over \<open>segments\<close>: \<open>pop\<close> on the empty list raises \<open>IndexError\<close>, which is
  caught and ignored.\<close>

fun resolve_segments :: "string list \<Rightarrow> string list \<Rightarrow> string list" where
  "resolve_segments [] resolved_path = resolved_path"
| "resolve_segments (seg # segs) resolved_path =
     (if seg = ''..'' then resolve_segments segs (butlast resolved_path)
      else if seg = ''.'' then resolve_segments segs resolved_path
      else resolve_segments segs (resolved_path @ [seg]))"

text \<open>\<open>urljoin\<close> after both arguments are parsed.\<close>

definition urljoin_parsed :: "parse_result \<Rightarrow> parse_result \<Rightarrow> string \<Rightarrow> string" where
  "urljoin_parsed b u url =
     (if pr_scheme u \<noteq> pr_scheme b then url
      else if pr_scheme u \<notin> set uses_relative then url
      else if pr_scheme u \<in> set uses_netloc \<and> pr_netloc u \<noteq> [] then urlunparse u
      else
        (let netloc = (if pr_scheme u \<in> set uses_netloc then pr_netloc b else pr_netloc u)
         in if pr_path u = [] \<and> pr_params u = []
            then urlunparse (u\<lparr>pr_netloc := netloc, pr_path := pr_path b,
                    pr_params := pr_params b,
                    pr_query := (if pr_query u = [] then pr_query b else pr_query u)\<rparr>)
            else
              (let base_parts0 = split_on (CHR ''/'') (pr_path b);
                   base_parts = (if last base_parts0 = [] then base_parts0
                                 else butlast base_parts0);
                   segments = (if take 1 (pr_path u) = ''/''
                               then split_on (CHR ''/'') (pr_path u)
                               else filter_middle (base_parts @ split_on (CHR ''/'') (pr_path u)));
                   resolved0 = resolve_segments segments [];
                   resolved_path = (if last segments = ''.'' then resolved0 @ [[]]
                                    else if last segments = ''..'' then resolved0 @ [[]]
                                    else resolved0);
                   joined = join ''/'' resolved_path
               in urlunparse (u\<lparr>pr_netloc := netloc,
                       pr_path := (if joined = [] then ''/'' else joined)\<rparr>))))"

text \<open>\<open>urljoin(base, url)\<close>\<close>

definition urljoin :: "env \<Rightarrow> string \<Rightarrow> string \<Rightarrow> py_error + string" where
  "urljoin env base url =
     (if base = [] then Inr url
      else if url = [] then Inr base
      else (case urlparse env base [] of
              Inl e \<Rightarrow> Inl e
            | Inr b \<Rightarrow>
                (case urlparse env url (pr_scheme b) of
                   Inl e \<Rightarrow> Inl e
                 | Inr u \<Rightarrow> Inr (urljoin_parsed b u url))))"

section \<open>The link normaliser\<close>

text \<open>\<open>norm_url(base, link)\<close>; the link of an anchor without \<open>href\<close> is \<open>None\<close>.\<close>

definition norm_url :: "env \<Rightarrow> string \<Rightarrow> string option \<Rightarrow> py_error + string option" where
  "norm_url env base link0 =
     (case link0 of
        None \<Rightarrow> Inr None
      | Some l \<Rightarrow>
          if l = [] then Inr None
          else
            (let link = py_strip l
             in if startswith link ''javascript:'' then Inr None
                else if startswith link ''mailto:'' then Inr None
                else if startswith link ''tel:'' then Inr None
                else
                  (case urljoin env base link of
                     Inl e \<Rightarrow> Inl e
                   | Inr joined \<Rightarrow>
                       (case urlparse env joined [] of
                          Inl e \<Rightarrow> Inl e
                        | Inr parsed \<Rightarrow>
                            if pr_scheme parsed \<in> set [''http'', ''https'']
                            then Inr (Some (urlunparse (parsed\<lparr>pr_fragment := []\<rparr>)))
                            else Inr None))))"

text \<open>\<open>is_same_domain(start_url, test_url)\<close>\<close>

definition is_same_domain :: "env \<Rightarrow> string \<Rightarrow> string \<Rightarrow> bool" where
  "is_same_domain env start_url test_url =
     (fst (tld_extract env start_url) = fst (tld_extract env test_url)
      \<and> snd (tld_extract env start_url) = snd (tld_extract env test_url))"

section \<open>The page fetcher\<close>

text \<open>
  The dictionary \<open>fetch\<close> returns: either the six keys of a response, or \<open>url\<close> and
  \<open>error\<close>. The body text is kept for status 200 only.
\<close>

record fetched =
  f_url :: string
  f_status_code :: int
  f_elapsed :: real
  f_text :: string
  f_final_url :: string
  f_headers :: "(string \<times> string) list"

datatype fetch_result = Fetched fetched | FetchError string string

definition fetch :: "env \<Rightarrow> string \<Rightarrow> fetch_result" where
  "fetch env url =
     (case http_get env url of
        Inl e \<Rightarrow> FetchError url e
      | Inr r \<Rightarrow>
          Fetched \<lparr>f_url = url, f_status_code = r_status_code r, f_elapsed = r_seconds r,
                   f_text = (if r_status_code r = 200 then r_text r else []),
                   f_final_url = r_url r, f_headers = r_headers r\<rparr>)"

section \<open>The page extractor\<close>

record image =
  img_src :: string
  img_alt :: string

record anchor =
  a_href :: "string option"
  a_text :: string

record onpage =
  on_title :: string
  on_meta_description :: string
  on_meta_robots :: string
  on_canonical :: string
  on_og :: "(string \<times> string) list"
  on_twitter :: "(string \<times> string) list"
  on_h1s :: "string list"
  on_h2s :: "string list"
  on_images :: "image list"
  on_links :: "anchor list"
  on_jsonld :: "string list"
  on_word_count :: nat
  on_words :: "string list"
  on_body_text :: string

text \<open>\<open>tag.get(key, default)\<close>; \<open>tag.get(key)\<close> is \<open>map_of tag key\<close>.\<close>

definition attr_get :: "attrs \<Rightarrow> string \<Rightarrow> string \<Rightarrow> string" where
  "attr_get tag key dflt = (case map_of tag key of Some v \<Rightarrow> v | None \<Rightarrow> dflt)"

text \<open>The truth value of \<open>tag.get(key)\<close>: the attribute is there and is not empty.\<close>

definition attr_truthy :: "attrs \<Rightarrow> string \<Rightarrow> bool" where
  "attr_truthy tag key = (case map_of tag key of Some v \<Rightarrow> v \<noteq> [] | None \<Rightarrow> False)"

text \<open>The four variables that the loop over the meta tags assigns.\<close>

record meta_state =
  meta_desc :: string
  meta_robots :: string
  og :: "(string \<times> string) list"
  twitter :: "(string \<times> string) list"

text \<open>The body of \<open>for tag in soup.find_all('meta')\<close>.\<close>

definition meta_step :: "attrs \<Rightarrow> meta_state \<Rightarrow> meta_state" where
  "meta_step tag st =
     (let st1 = (if py_lower (attr_get tag ''name'' []) = ''description''
                     \<and> attr_truthy tag ''content''
                 then st\<lparr>meta_desc := py_strip (attr_get tag ''content'' [])\<rparr> else st);
          st2 = (if py_lower (attr_get tag ''name'' []) = ''robots''
                     \<and> attr_truthy tag ''content''
                 then st1\<lparr>meta_robots := py_strip (attr_get tag ''content'' [])\<rparr> else st1);
          st3 = (if startswith (py_lower (attr_get tag ''property'' [])) ''og:''
                 then st2\<lparr>og := AList.update (attr_get tag ''property'' [])
                                   (attr_get tag ''content'' []) (og st2)\<rparr>
                 else st2)
      in if startswith (py_lower (attr_get tag ''name'' [])) ''twitter:''
         then st3\<lparr>twitter := AList.update (attr_get tag ''name'' [])
                                 (attr_get tag ''content'' []) (twitter st3)\<rparr>
         else st3)"

definition meta_loop :: "attrs list \<Rightarrow> meta_state" where
  "meta_loop tags =
     fold meta_step tags \<lparr>meta_desc = [], meta_robots = [], og = [], twitter = []\<rparr>"

text \<open>\<open>extract_onpage(url, html)\<close>\<close>

definition extract_onpage :: "env \<Rightarrow> string \<Rightarrow> string \<Rightarrow> onpage" where
  "extract_onpage env url html =
     (let soup = soup_parse env html;
          ms = meta_loop (soup_metas soup);
          body_text = soup_text soup;
          words = WORD_RE_findall (py_lower body_text)
      in \<lparr>on_title = (case soup_title soup of
                         Some (Some s) \<Rightarrow> (if s = [] then [] else py_strip s)
                       | _ \<Rightarrow> []),
           on_meta_description = meta_desc ms,
           on_meta_robots = meta_robots ms,
           on_canonical = (case soup_canonical soup of
                             None \<Rightarrow> []
                           | Some link_can \<Rightarrow>
                               (if attr_truthy link_can ''href''
                                then py_strip (attr_get link_can ''href'' []) else [])),
           on_og = og ms,
           on_twitter = twitter ms,
           on_h1s = soup_h1 soup,
           on_h2s = soup_h2 soup,
           on_images = map (\<lambda>img. \<lparr>img_src = attr_get img ''src'' [],
                                      img_alt = attr_get img ''alt'' []\<rparr>) (soup_imgs soup),
           on_links = map (\<lambda>a. \<lparr>a_href = map_of (fst a) ''href'', a_text = snd a\<rparr>)
                          (soup_anchors soup),
           on_jsonld = List.map_filter id (soup_ldjson soup),
           on_word_count = length words,
           on_words = words,
           on_body_text = body_text\<rparr>)"

section \<open>The crawl engine\<close>

text \<open>
  One value of the \<open>results\<close> dictionary: a dictionary whose keys are among \<open>error\<close>,
  \<open>http\<close>, \<open>final_url\<close>, \<open>elapsed\<close>, \<open>headers\<close> and \<open>onpage\<close>. A key that is absent and a key
  that holds \<open>None\<close> are both \<open>None\<close> here: the program reads \<open>http\<close> through \<open>get\<close> only,
  and never stores \<open>None\<close> under \<open>error\<close> or \<open>onpage\<close>.
\<close>

record entry =
  e_error :: "string option"
  e_http :: "int option"
  e_final_url :: "string option"
  e_elapsed :: "real option"
  e_headers :: "(string \<times> string) list option"
  e_onpage :: "onpage option"

definition error_entry :: "string \<Rightarrow> entry" where
  "error_entry msg =
     \<lparr>e_error = Some msg, e_http = None, e_final_url = None, e_elapsed = None,
      e_headers = None, e_onpage = None\<rparr>"

definition http_entry :: "int option \<Rightarrow> string option \<Rightarrow> entry" where
  "http_entry code final =
     \<lparr>e_error = None, e_http = code, e_final_url = final, e_elapsed = None,
      e_headers = None, e_onpage = None\<rparr>"

definition page_entry :: "fetched \<Rightarrow> onpage \<Rightarrow> entry" where
  "page_entry res on =
     \<lparr>e_error = None, e_http = Some (f_status_code res), e_final_url = Some (f_final_url res),
      e_elapsed = Some (f_elapsed res), e_headers = Some (f_headers res), e_onpage = Some on\<rparr>"

text \<open>
  The variables of \<open>crawl\<close>. A dictionary is an association list in insertion order;
  \<open>futures\<close> holds the addresses in the order of their \<open>ex.submit\<close>. \<open>submitted\<close> is
  the trace of the fetches: every address handed to \<open>ex.submit(fetch, url)\<close>, over all
  rounds, each with whether it was in \<open>visited\<close> at that moment.
\<close>

record crawl_state =
  visited :: "string set"
  results :: "(string \<times> entry) list"
  pages_crawled :: int
  futures :: "string list"
  next_round :: "string list"
  submitted :: "(string \<times> bool) list"

text \<open>\<open>visited.add(url)\<close>\<close>

definition mark_visited :: "string \<Rightarrow> crawl_state \<Rightarrow> crawl_state" where
  "mark_visited url st = st\<lparr>visited := insert url (visited st)\<rparr>"

text \<open>\<open>futures[ex.submit(fetch, url)] = url\<close>\<close>

definition submit :: "string \<Rightarrow> crawl_state \<Rightarrow> crawl_state" where
  "submit url st =
     st\<lparr>futures := futures st @ [url],
        submitted := submitted st @ [(url, url \<in> visited st)]\<rparr>"

text \<open>\<open>for url in to_visit\<close>: the budget test breaks, a visited address is skipped, any
  other is marked visited, then submitted, then counted.\<close>

fun submit_all :: "int \<Rightarrow> string list \<Rightarrow> crawl_state \<Rightarrow> crawl_state" where
  "submit_all max_pages [] st = st"
| "submit_all max_pages (url # rest) st =
     (if pages_crawled st \<ge> max_pages then st
      else if url \<in> visited st then submit_all max_pages rest st
      else submit_all max_pages rest
             ((submit url (mark_visited url st))\<lparr>pages_crawled := pages_crawled st + 1\<rparr>))"

text \<open>The body of \<open>for a in onpage['links']\<close> once \<open>norm_url\<close> has returned: an empty
  result is skipped, a same-site address that is new and within the budget is queued.\<close>

definition consider_link ::
  "env \<Rightarrow> string \<Rightarrow> int \<Rightarrow> string option \<Rightarrow> crawl_state \<Rightarrow> crawl_state"
where
  "consider_link env start_url max_pages nurl st =
     (case nurl of
        None \<Rightarrow> st
      | Some n \<Rightarrow>
          if n = [] then st
          else if is_same_domain env start_url n
          then (if n \<notin> visited st \<and> n \<notin> set (next_round st)
                   \<and> int (length (next_round st)) + pages_crawled st < max_pages
                then st\<lparr>next_round := next_round st @ [n]\<rparr>
                else st)
          else st)"

text \<open>\<open>for a in onpage['links']\<close>; an exception of \<open>norm_url\<close> ends the crawl.\<close>

fun collect_links ::
  "env \<Rightarrow> string \<Rightarrow> int \<Rightarrow> string \<Rightarrow> anchor list \<Rightarrow> crawl_state \<Rightarrow> py_error + crawl_state"
where
  "collect_links env start_url max_pages url [] st = Inr st"
| "collect_links env start_url max_pages url (a # rest) st =
     (case norm_url env url (a_href a) of
        Inl e \<Rightarrow> Inl e
      | Inr nurl \<Rightarrow>
          collect_links env start_url max_pages url rest
            (consider_link env start_url max_pages nurl st))"

text \<open>The body of \<open>for fut in as_completed(futures)\<close>, for the future of \<open>url\<close>.\<close>

definition handle_result ::
  "env \<Rightarrow> string \<Rightarrow> int \<Rightarrow> string \<Rightarrow> crawl_state \<Rightarrow> py_error + crawl_state"
where
  "handle_result env start_url max_pages url st =
     (case fetch env url of
        FetchError u e \<Rightarrow>
          if e = []
          then Inr (st\<lparr>results := AList.update url (http_entry None None) (results st)\<rparr>)
          else Inr (st\<lparr>results := AList.update url (error_entry e) (results st)\<rparr>)
      | Fetched res \<Rightarrow>
          if f_status_code res \<noteq> 200
          then Inr (st\<lparr>results := AList.update url
                        (http_entry (Some (f_status_code res)) (Some (f_final_url res)))
                        (results st)\<rparr>)
          else (let onpage = extract_onpage env url (f_text res)
                in collect_links env start_url max_pages url (on_links onpage)
                     (st\<lparr>results := AList.update url (page_entry res onpage) (results st)\<rparr>)))"

fun complete_all ::
  "env \<Rightarrow> string \<Rightarrow> int \<Rightarrow> string list \<Rightarrow> crawl_state \<Rightarrow> py_error + crawl_state"
where
  "complete_all env start_url max_pages [] st = Inr st"
| "complete_all env start_url max_pages (url # rest) st =
     (case handle_result env start_url max_pages url st of
        Inl e \<Rightarrow> Inl e
      | Inr st' \<Rightarrow> complete_all env start_url max_pages rest st')"

text \<open>
  \<open>for d in range(depth + 1)\<close>, with the rounds still to run as the counter.
  \<open>ThreadPoolExecutor(max_workers=workers)\<close> raises \<open>ValueError\<close> unless \<open>workers\<close> is
  positive. \<open>as_completed\<close> yields the futures of the round by completion time.
\<close>

fun crawl_rounds ::
  "env \<Rightarrow> string \<Rightarrow> int \<Rightarrow> int \<Rightarrow> nat \<Rightarrow> string list \<Rightarrow> crawl_state \<Rightarrow> py_error + crawl_state"
where
  "crawl_rounds env start_url max_pages workers 0 to_visit st = Inr st"
| "crawl_rounds env start_url max_pages workers (Suc n) to_visit st =
     (if pages_crawled st \<ge> max_pages then Inr st
      else if workers \<le> 0 then Inl ValueError
      else
        (let st1 = submit_all max_pages to_visit (st\<lparr>futures := [], next_round := []\<rparr>)
         in case complete_all env start_url max_pages
                   (sort_key (finish_time env) (futures st1)) st1 of
              Inl e \<Rightarrow> Inl e
            | Inr st2 \<Rightarrow> crawl_rounds env start_url max_pages workers n (next_round st2) st2))"

definition initial_state :: crawl_state where
  "initial_state =
     \<lparr>visited = {}, results = [], pages_crawled = 0, futures = [], next_round = [],
      submitted = []\<rparr>"

text \<open>\<open>crawl(start_url, depth, max_pages, workers)\<close>, up to its \<open>return\<close>: the final values
  of all its variables.\<close>

definition crawl_run :: "env \<Rightarrow> string \<Rightarrow> int \<Rightarrow> int \<Rightarrow> int \<Rightarrow> py_error + crawl_state" where
  "crawl_run env start_url depth max_pages workers =
     crawl_rounds env (rstrip_with (\<lambda>c. c = CHR ''/'') start_url) max_pages workers
       (nat (depth + 1)) [rstrip_with (\<lambda>c. c = CHR ''/'') start_url] initial_state"

text \<open>\<open>crawl\<close> returns \<open>results\<close>.\<close>

definition crawl ::
  "env \<Rightarrow> string \<Rightarrow> int \<Rightarrow> int \<Rightarrow> int \<Rightarrow> py_error + (string \<times> entry) list"
where
  "crawl env start_url depth max_pages workers =
     (case crawl_run env start_url depth max_pages workers of
        Inl e \<Rightarrow> Inl e
      | Inr st \<Rightarrow> Inr (results st))"

section \<open>The analysis engine\<close>

text \<open>\<open>STOPWORDS\<close>: the set of the words of the source's stopword text.\<close>

definition STOPWORDS :: "string set" where
  "STOPWORDS = set
     [''about'', ''above'', ''after'', ''again'', ''against'', ''all'', ''am'', ''an'',
      ''and'', ''any'', ''are'', ''aren't'', ''as'', ''at'', ''be'', ''because'', ''been'',
      ''before'', ''being'', ''below'', ''between'', ''both'', ''but'', ''by'', ''can't'',
      ''cannot'', ''could'', ''couldn't'', ''did'', ''didn't'', ''do'', ''does'',
      ''doesn't'', ''doing'', ''don't'', ''down'', ''during'', ''each'', ''few'', ''for'',
      ''from'', ''further'', ''had'', ''hadn't'', ''has'', ''hasn't'', ''have'', ''haven't'',
      ''having'', ''he'', ''he'd'', ''he'll'', ''he's'', ''her'', ''here'', ''here's'',
      ''hers'', ''herself'', ''him'', ''himself'', ''his'', ''how'', ''how's'', ''i'',
      ''i'd'', ''i'll'', ''i'm'', ''i've'', ''if'', ''in'', ''into'', ''is'', ''isn't'',
      ''it'', ''it's'', ''its'', ''itself'', ''let's'', ''me'', ''more'', ''most'',
      ''mustn't'', ''my'', ''myself'', ''no'', ''nor'', ''not'', ''of'', ''off'', ''on'',
      ''once'', ''only'', ''or'', ''other'', ''ought'', ''our'', ''ours'', ''ourselves'',
      ''out'', ''over'', ''own'', ''same'', ''shan't'', ''she'', ''she'd'', ''she'll'',
      ''she's'', ''should'', ''shouldn't'', ''so'', ''some'', ''such'', ''than'', ''that'',
      ''that's'', ''the'', ''their'', ''theirs'', ''them'', ''themselves'', ''then'',
      ''there'', ''there's'', ''these'', ''they'', ''they'd'', ''they'll'', ''they're'',
      ''they've'', ''this'', ''those'', ''through'', ''to'', ''too'', ''under'', ''until'',
      ''up'', ''very'', ''was'', ''wasn't'', ''we'', ''we'd'', ''we'll'', ''we're'',
      ''we've'', ''were'', ''weren't'', ''what'', ''what's'', ''when'', ''when's'',
      ''where'', ''where's'', ''which'', ''while'', ''who'', ''who's'', ''whom'', ''why'',
      ''why's'', ''with'', ''won't'', ''would'', ''wouldn't'', ''you'', ''you'd'',
      ''you'll'', ''you're'', ''you've'', ''your'', ''yours'', ''yourself'', ''yourselves'']"

text \<open>
  A \<open>collections.Counter\<close>: an association list in the order in which the keys were first
  counted. \<open>counter_incr\<close> is \<open>c[k] += 1\<close>, \<open>counter_update\<close> is \<open>c.update(iterable)\<close>, and
  \<open>most_common\<close> is \<open>c.most_common(n)\<close>: by descending count, equal counts in the order
  first encountered.
\<close>

type_synonym counter = "(string \<times> nat) list"

definition counter_incr :: "string \<Rightarrow> counter \<Rightarrow> counter" where
  "counter_incr k c = AList.update k (case map_of c k of None \<Rightarrow> 1 | Some n \<Rightarrow> n + 1) c"

definition counter_update :: "string list \<Rightarrow> counter \<Rightarrow> counter" where
  "counter_update ks c = fold counter_incr ks c"

definition most_common :: "nat \<Rightarrow> counter \<Rightarrow> counter" where
  "most_common n c = take n (sort_key (\<lambda>kv. - int (snd kv)) c)"

text \<open>\<open>str(n)\<close> for a length, as the f-strings of the checklist print it.\<close>

fun str_nat :: "nat \<Rightarrow> string" where
  "str_nat n =
     (if n < 10 then [''0123456789'' ! n]
      else str_nat (n div 10) @ [''0123456789'' ! (n mod 10)])"

record broken =
  b_href :: string
  b_http :: "int option"

record content_report =
  rep_title :: string
  rep_title_length :: nat
  rep_meta_description :: string
  rep_meta_description_length :: nat
  rep_h1s :: "string list"
  rep_word_count :: nat
  rep_num_images :: nat

text \<open>The three shapes of \<open>page_report\<close>: only \<open>error\<close>, only \<open>http\<close>, or the content keys.\<close>

datatype page_report =
  ErrorReport string | HttpReport "int option" | ContentReport content_report

record candidate =
  c_phrase :: string
  c_count :: nat
  c_overlap :: nat
  c_score :: nat

record check_item =
  ci_issue :: string
  ci_url :: "string option"
  ci_priority :: string
  ci_why :: string

record summary =
  total_pages :: nat
  pages_missing_title :: "string list"
  pages_missing_meta_description :: "string list"
  pages_missing_h1 :: "string list"
  thin_pages :: "string list"
  images_missing_alt :: "(string \<times> string list) list"
  broken_links :: "(string \<times> broken list) list"
  duplicate_titles :: "(string \<times> nat) list"
  duplicate_meta_descriptions :: "(string \<times> nat) list"
  top_words :: "(string \<times> nat) list"
  per_page :: "(string \<times> page_report) list"
  candidate_phrases :: "candidate list"
  checklist :: "check_item list"
  recommendations :: "string list"

text \<open>What the first loop of \<open>analyze\<close> builds: the lists and dictionaries of \<open>summary\<close>
  that it fills, and the three counters.\<close>

record acc =
  acc_missing_title :: "string list"
  acc_missing_meta :: "string list"
  acc_missing_h1 :: "string list"
  acc_thin :: "string list"
  acc_missing_alt :: "(string \<times> string list) list"
  acc_broken :: "(string \<times> broken list) list"
  acc_per_page :: "(string \<times> page_report) list"
  title_counts :: counter
  meta_counts :: counter
  word_counts :: counter

text \<open>
  The body of \<open>for a in on.get('links', [])\<close> once \<open>norm_url\<close> has returned. A target is
  broken when it is same-site relative to the page, is a key of \<open>results\<close>, and its
  \<open>http\<close> is truthy and not 200. The list \<open>extern\<close> is never read and is left out.
\<close>

definition check_link ::
  "env \<Rightarrow> (string \<times> entry) list \<Rightarrow> string \<Rightarrow> string option \<Rightarrow> broken list \<Rightarrow> broken list"
where
  "check_link env res url nurl broken_list =
     (case nurl of
        None \<Rightarrow> broken_list
      | Some n \<Rightarrow>
          if n = [] then broken_list
          else if is_same_domain env url n
          then (case map_of res n of
                  None \<Rightarrow> broken_list
                | Some rr \<Rightarrow>
                    (case e_http rr of
                       None \<Rightarrow> broken_list
                     | Some h \<Rightarrow>
                         if h = 0 then broken_list
                         else if h = 200 then broken_list
                         else broken_list @ [\<lparr>b_href = n, b_http = Some h\<rparr>]))
          else broken_list)"

fun broken_loop ::
  "env \<Rightarrow> (string \<times> entry) list \<Rightarrow> string \<Rightarrow> anchor list \<Rightarrow> broken list
   \<Rightarrow> py_error + broken list"
where
  "broken_loop env res url [] broken_list = Inr broken_list"
| "broken_loop env res url (a # rest) broken_list =
     (case norm_url env url (a_href a) of
        Inl e \<Rightarrow> Inl e
      | Inr nurl \<Rightarrow>
          broken_loop env res url rest (check_link env res url nurl broken_list))"

text \<open>The body of the first loop for a page with status 200, given its broken links.\<close>

definition content_step :: "string \<Rightarrow> onpage \<Rightarrow> broken list \<Rightarrow> acc \<Rightarrow> acc" where
  "content_step url on broken_list a =
     (let title = on_title on;
          meta = on_meta_description on;
          h1s = on_h1s on;
          wc = on_word_count on;
          page_report = ContentReport
            \<lparr>rep_title = title, rep_title_length = length title,
             rep_meta_description = meta, rep_meta_description_length = length meta,
             rep_h1s = h1s, rep_word_count = wc, rep_num_images = length (on_images on)\<rparr>;
          missing_alts = map img_src (filter (\<lambda>img. img_alt img = []) (on_images on));
          words = filter (\<lambda>w. w \<notin> STOPWORDS) (on_words on)
      in a\<lparr>acc_missing_title :=
             (if title = [] then acc_missing_title a @ [url] else acc_missing_title a),
           acc_missing_meta :=
             (if meta = [] then acc_missing_meta a @ [url] else acc_missing_meta a),
           acc_missing_h1 :=
             (if h1s = [] then acc_missing_h1 a @ [url] else acc_missing_h1 a),
           acc_thin := (if wc < 300 then acc_thin a @ [url] else acc_thin a),
           acc_missing_alt :=
             (if missing_alts = [] then acc_missing_alt a
              else AList.update url missing_alts (acc_missing_alt a)),
           acc_broken :=
             (if broken_list = [] then acc_broken a
              else AList.update url broken_list (acc_broken a)),
           word_counts := counter_update words (word_counts a),
           title_counts := (if title = [] then title_counts a
                            else counter_incr title (title_counts a)),
           meta_counts := (if meta = [] then meta_counts a
                           else counter_incr meta (meta_counts a)),
           acc_per_page := AList.update url page_report (acc_per_page a)\<rparr>)"

text \<open>The body of \<open>for url, r in results.items()\<close>, first loop. \<open>r['onpage']\<close> on an entry
  without that key raises \<open>KeyError\<close>.\<close>

definition page_step ::
  "env \<Rightarrow> (string \<times> entry) list \<Rightarrow> string \<Rightarrow> entry \<Rightarrow> acc \<Rightarrow> py_error + acc"
where
  "page_step env res url r a =
     (case e_error r of
        Some msg \<Rightarrow> Inr (a\<lparr>acc_per_page := AList.update url (ErrorReport msg) (acc_per_page a)\<rparr>)
      | None \<Rightarrow>
          if e_http r \<noteq> Some 200
          then Inr (a\<lparr>acc_per_page :=
                        AList.update url (HttpReport (e_http r)) (acc_per_page a)\<rparr>)
          else
            (case e_onpage r of
               None \<Rightarrow> Inl KeyError
             | Some on \<Rightarrow>
                 (case broken_loop env res url (on_links on) [] of
                    Inl e \<Rightarrow> Inl e
                  | Inr broken_list \<Rightarrow> Inr (content_step url on broken_list a))))"

fun page_loop ::
  "env \<Rightarrow> (string \<times> entry) list \<Rightarrow> (string \<times> entry) list \<Rightarrow> acc \<Rightarrow> py_error + acc"
where
  "page_loop env res [] a = Inr a"
| "page_loop env res (kv # rest) a =
     (case page_step env res (fst kv) (snd kv) a of
        Inl e \<Rightarrow> Inl e
      | Inr a' \<Rightarrow> page_loop env res rest a')"

definition empty_acc :: acc where
  "empty_acc =
     \<lparr>acc_missing_title = [], acc_missing_meta = [], acc_missing_h1 = [], acc_thin = [],
      acc_missing_alt = [], acc_broken = [], acc_per_page = [],
      title_counts = [], meta_counts = [], word_counts = []\<rparr>"

text \<open>\<open>for t, c in counts.items(): if c > 1: duplicates[t] = c\<close>\<close>

definition duplicates :: "counter \<Rightarrow> (string \<times> nat) list" where
  "duplicates counts =
     fold (\<lambda>tc d. if 1 < snd tc then AList.update (fst tc) (snd tc) d else d) counts []"

text \<open>The phrase candidates of one page: the runs found in its title, if it is not
  empty, then those found in each H1.\<close>

definition page_candidates :: "onpage \<Rightarrow> string list" where
  "page_candidates on =
     (if on_title on = [] then [] else phrase_findall (on_title on))
     @ concat (map phrase_findall (on_h1s on))"

text \<open>The body of \<open>for c in candidates\<close>\<close>

definition phrase_incr :: "string \<Rightarrow> counter \<Rightarrow> counter" where
  "phrase_incr c phrase_counts =
     (let words = filter (\<lambda>w. w \<notin> STOPWORDS) (WORD_RE_findall (py_lower c))
      in if 1 \<le> length words \<and> length words \<le> 5
         then counter_incr (join '' '' words) phrase_counts
         else phrase_counts)"

text \<open>The second loop over \<open>results.items()\<close>: entries without \<open>onpage\<close> are skipped.\<close>

definition phrase_step :: "string \<times> entry \<Rightarrow> counter \<Rightarrow> counter" where
  "phrase_step kv phrase_counts =
     (case e_onpage (snd kv) of
        None \<Rightarrow> phrase_counts
      | Some on \<Rightarrow> fold phrase_incr (page_candidates on) phrase_counts)"

definition phrase_loop :: "(string \<times> entry) list \<Rightarrow> counter" where
  "phrase_loop res = fold phrase_step res []"

text \<open>
  \<open>high_value\<close>: each of the top phrases with its count, its overlap with
  \<open>top_unigram_set = set([w for w, _ in top_words[:120]])\<close> and its score, sorted by
  \<open>(-score, -count)\<close>; the first 40 are kept.
\<close>

definition score_phrase :: "string set \<Rightarrow> string \<times> nat \<Rightarrow> candidate" where
  "score_phrase top_unigram_set pc =
     (let parts = py_split (fst pc);
          overlap = length (filter (\<lambda>p. p \<in> top_unigram_set) parts)
      in \<lparr>c_phrase = fst pc, c_count = snd pc, c_overlap = overlap,
          c_score = snd pc + overlap\<rparr>)"

definition high_value :: "(string \<times> nat) list \<Rightarrow> counter \<Rightarrow> candidate list" where
  "high_value top_words_list phrase_counts =
     (let top_phrases = most_common 40 phrase_counts;
          top_unigram_set = set (map fst (take 120 top_words_list))
      in sort_key (\<lambda>x. (- int (c_score x), - int (c_count x)))
           (map (score_phrase top_unigram_set) top_phrases))"

text \<open>The checklist, in the order in which \<open>analyze\<close> appends to it.\<close>

definition make_checklist ::
  "acc \<Rightarrow> (string \<times> nat) list \<Rightarrow> (string \<times> nat) list \<Rightarrow> check_item list"
where
  "make_checklist a dup_titles dup_metas =
     map (\<lambda>url. \<lparr>ci_issue = ''Missing title'', ci_url = Some url, ci_priority = ''P0'',
                  ci_why = ''Title is critical for ranking and CTR''\<rparr>) (acc_missing_title a)
     @ map (\<lambda>url. \<lparr>ci_issue = ''Missing meta description'', ci_url = Some url,
                    ci_priority = ''P1'', ci_why = ''Improve CTR in SERPs''\<rparr>)
         (acc_missing_meta a)
     @ map (\<lambda>url. \<lparr>ci_issue = ''Missing H1'', ci_url = Some url, ci_priority = ''P1'',
                    ci_why = ''H1 signals page topic''\<rparr>) (acc_missing_h1 a)
     @ map (\<lambda>url. \<lparr>ci_issue = ''Thin content (<300 words)'', ci_url = Some url,
                    ci_priority = ''P1'',
                    ci_why = ''Create more useful, in-depth content''\<rparr>) (acc_thin a)
     @ map (\<lambda>ui. \<lparr>ci_issue = str_nat (length (snd ui)) @ '' images missing alt'',
                   ci_url = Some (fst ui), ci_priority = ''P2'',
                   ci_why = ''Accessibility and image search''\<rparr>) (acc_missing_alt a)
     @ map (\<lambda>ub. \<lparr>ci_issue = ''Broken links ('' @ str_nat (length (snd ub)) @ '')'',
                   ci_url = Some (fst ub), ci_priority = ''P1'',
                   ci_why = ''Fix or remove broken links''\<rparr>) (acc_broken a)
     @ (if dup_titles = [] then []
        else [\<lparr>ci_issue = str_nat (length dup_titles) @ '' duplicate titles'',
                ci_url = None, ci_priority = ''P2'',
                ci_why = ''Unique titles improve clarity''\<rparr>])
     @ (if dup_metas = [] then []
        else [\<lparr>ci_issue = str_nat (length dup_metas) @ '' duplicate meta descriptions'',
                ci_url = None, ci_priority = ''P2'',
                ci_why = ''Unique meta descriptions improve SERP snippets''\<rparr>])"

definition the_recommendations :: "string list" where
  "the_recommendations =
     [''Ensure every important page has a unique, descriptive title (50-60 chars) and meta description (120-160 chars).'',
      ''Add or fix canonical tags where pages have duplicates or parameters.'',
      ''Fix broken internal links and reduce redirects where possible.'',
      ''Add meaningful H1 headings to topic pages and use H2/H3 to structure content.'',
      ''Add alt text to images and descriptive filenames for images used for content.'',
      ''Consolidate or expand thin pages (<300 words). Consider merging near-duplicate or low-value pages.'',
      ''Add structured data (JSON-LD) for products, articles, breadcrumbs, and organization where applicable.'',
      ''Improve page speed (defer to Lighthouse for detailed performance recommendations).'']"

text \<open>The summary, from what the two loops built.\<close>

definition summarize :: "(string \<times> entry) list \<Rightarrow> acc \<Rightarrow> counter \<Rightarrow> summary" where
  "summarize res a phrase_counts =
     (let dup_titles = duplicates (title_counts a);
          dup_metas = duplicates (meta_counts a);
          top_words_list = most_common 80 (word_counts a)
      in \<lparr>total_pages = length res,
          pages_missing_title = acc_missing_title a,
          pages_missing_meta_description = acc_missing_meta a,
          pages_missing_h1 = acc_missing_h1 a,
          thin_pages = acc_thin a,
          images_missing_alt = acc_missing_alt a,
          broken_links = acc_broken a,
          duplicate_titles = dup_titles,
          duplicate_meta_descriptions = dup_metas,
          top_words = top_words_list,
          per_page = acc_per_page a,
          candidate_phrases = take 40 (high_value top_words_list phrase_counts),
          checklist = make_checklist a dup_titles dup_metas,
          recommendations = the_recommendations\<rparr>)"

text \<open>\<open>analyze(res)\<close>\<close>

definition analyze :: "env \<Rightarrow> (string \<times> entry) list \<Rightarrow> py_error + summary" where
  "analyze env res =
     (case page_loop env res res empty_acc of
        Inl e \<Rightarrow> Inl e
      | Inr a \<Rightarrow> Inr (summarize res a (phrase_loop res)))"

section \<open>Definitions for the proofs\<close>

subsection \<open>Invariants of the crawl\<close>

text \<open>Between the rounds: the trace, the visited set and the result keys agree.\<close>

definition crawl_inv :: "crawl_state \<Rightarrow> bool" where
  "crawl_inv st =
     (distinct (map fst (submitted st)) \<and> fst ` set (submitted st) = visited st
      \<and> int (length (submitted st)) = pages_crawled st
      \<and> list_all snd (submitted st)
      \<and> distinct (map fst (results st))
      \<and> fst ` set (results st) = visited st)"

text \<open>Inside a round, after the submissions: the futures are the addresses still
  without a result.\<close>

definition round_inv :: "crawl_state \<Rightarrow> bool" where
  "round_inv st =
     (distinct (map fst (submitted st)) \<and> fst ` set (submitted st) = visited st
      \<and> int (length (submitted st)) = pages_crawled st
      \<and> list_all snd (submitted st)
      \<and> distinct (map fst (results st))
      \<and> distinct (futures st)
      \<and> set (futures st) \<inter> fst ` set (results st) = {}
      \<and> fst ` set (results st) \<union> set (futures st) = visited st)"


subsection \<open>What one page discovers\<close>

text \<open>
  The same-site addresses that the anchors of the page at \<open>url\<close> normalise to, in document
  order, without those in \<open>seen\<close> and without repetitions.
\<close>

fun new_targets :: "env \<Rightarrow> string \<Rightarrow> string \<Rightarrow> string set \<Rightarrow> anchor list \<Rightarrow> string list" where
  "new_targets env start_url url seen [] = []"
| "new_targets env start_url url seen (a # rest) =
     (case norm_url env url (a_href a) of
        Inr (Some n) \<Rightarrow>
          if n \<noteq> [] \<and> is_same_domain env start_url n \<and> n \<notin> seen
          then n # new_targets env start_url url (insert n seen) rest
          else new_targets env start_url url seen rest
      | _ \<Rightarrow> new_targets env start_url url seen rest)"


subsection \<open>A small site\<close>

text \<open>
  The site behind the seed \<open>http://a.com/\<close>: the home page answers 200 and links to
  \<open>/c\<close> and then to \<open>/b\<close>; every other address answers 404. All addresses are on one
  registrable domain, and fetches complete in the order of their submission.
\<close>

definition site_soup :: "string \<Rightarrow> soup" where
  "site_soup html =
     \<lparr>soup_title = Some (Some ''Home''), soup_metas = [], soup_canonical = None,
      soup_h1 = [], soup_h2 = [], soup_imgs = [],
      soup_anchors = (if html = ''A'' then [([(''href'', ''/c'')], ''c''), ([(''href'', ''/b'')], ''b'')]
                      else []),
      soup_ldjson = [], soup_text = html\<rparr>"

definition site_get :: "string \<Rightarrow> string + response" where
  "site_get u =
     (if u = ''http://a.com''
      then Inr \<lparr>r_status_code = 200, r_text = ''A'', r_url = u, r_headers = [], r_seconds = 0\<rparr>
      else Inr \<lparr>r_status_code = 404, r_text = ''gone'', r_url = u, r_headers = [],
                r_seconds = 0\<rparr>)"

definition site_env :: env where
  "site_env =
     \<lparr>ip_address = (\<lambda>h. None), nfkc = (\<lambda>s. s), tld_extract = (\<lambda>u. (''a'', ''com'')),
      http_get = site_get, soup_parse = site_soup, finish_time = (\<lambda>u. 0)\<rparr>"

subsection \<open>The meta tags\<close>

text \<open>The trimmed content of the last meta tag of that name whose content is there and not
  empty, and of the first meta tag of that name.\<close>

definition last_meta_content :: "string \<Rightarrow> attrs list \<Rightarrow> string" where
  "last_meta_content nm tags =
     (case rev (filter (\<lambda>tag. py_lower (attr_get tag ''name'' []) = nm
                              \<and> attr_truthy tag ''content'') tags) of
        [] \<Rightarrow> []
      | tag # _ \<Rightarrow> py_strip (attr_get tag ''content'' []))"

definition first_meta_content :: "string \<Rightarrow> attrs list \<Rightarrow> string" where
  "first_meta_content nm tags =
     (case filter (\<lambda>tag. py_lower (attr_get tag ''name'' []) = nm) tags of
        [] \<Rightarrow> []
      | tag # _ \<Rightarrow> py_strip (attr_get tag ''content'' []))"

text \<open>A document with two description tags.\<close>

definition two_meta_soup :: soup where
  "two_meta_soup =
     \<lparr>soup_title = None,
      soup_metas = [[(''name'', ''description''), (''content'', ''first'')],
                    [(''name'', ''Description''), (''content'', '' second '')]],
      soup_canonical = None, soup_h1 = [], soup_h2 = [], soup_imgs = [], soup_anchors = [],
      soup_ldjson = [], soup_text = []\<rparr>"

definition two_meta_env :: env where
  "two_meta_env =
     \<lparr>ip_address = (\<lambda>h. None), nfkc = (\<lambda>s. s), tld_extract = (\<lambda>u. ([], [])),
      http_get = (\<lambda>u. Inl ''unreachable''), soup_parse = (\<lambda>html. two_meta_soup),
      finish_time = (\<lambda>u. 0)\<rparr>"

subsection \<open>Pages, counts and reports\<close>

text \<open>An entry that the first loop of \<open>analyze\<close> treats as a fetched page: no \<open>error\<close> key
  and \<open>http\<close> equal to 200.\<close>

definition is_content :: "entry \<Rightarrow> bool" where
  "is_content r = (e_error r = None \<and> e_http r = Some 200)"

text \<open>The title and the meta description of a fetched page.\<close>

definition entry_title :: "entry \<Rightarrow> string option" where
  "entry_title r = (if is_content r then map_option on_title (e_onpage r) else None)"

definition entry_meta :: "entry \<Rightarrow> string option" where
  "entry_meta r = (if is_content r then map_option on_meta_description (e_onpage r) else None)"

text \<open>The number of fetched pages whose title, or meta description, is exactly the given
  string; the empty string is not counted.\<close>

definition title_count :: "(string \<times> entry) list \<Rightarrow> string \<Rightarrow> nat" where
  "title_count res t =
     (if t = [] then 0 else length (filter (\<lambda>kv. entry_title (snd kv) = Some t) res))"

definition meta_count :: "(string \<times> entry) list \<Rightarrow> string \<Rightarrow> nat" where
  "meta_count res m =
     (if m = [] then 0 else length (filter (\<lambda>kv. entry_meta (snd kv) = Some m) res))"

text \<open>The count a counter holds for a key, 0 when the key is absent.\<close>

definition count_of :: "counter \<Rightarrow> string \<Rightarrow> nat" where
  "count_of c k = (case map_of c k of None \<Rightarrow> 0 | Some n \<Rightarrow> n)"

text \<open>A counter built by increments: distinct keys, positive counts.\<close>

definition counter_ok :: "counter \<Rightarrow> bool" where
  "counter_ok c = (distinct (map fst c) \<and> list_all (\<lambda>kv. 0 < snd kv) c)"

text \<open>The report of an entry that is not a fetched page.\<close>

definition failure_report :: "entry \<Rightarrow> page_report" where
  "failure_report r =
     (case e_error r of Some msg \<Rightarrow> ErrorReport msg | None \<Rightarrow> HttpReport (e_http r))"

text \<open>The report of a fetched page.\<close>

definition content_report_of :: "onpage \<Rightarrow> page_report" where
  "content_report_of on =
     ContentReport
       \<lparr>rep_title = on_title on, rep_title_length = length (on_title on),
        rep_meta_description = on_meta_description on,
        rep_meta_description_length = length (on_meta_description on),
        rep_h1s = on_h1s on, rep_word_count = on_word_count on,
        rep_num_images = length (on_images on)\<rparr>"

text \<open>Two states of the first loop that agree on everything that is computed from page
  content.\<close>

definition same_content :: "acc \<Rightarrow> acc \<Rightarrow> bool" where
  "same_content a b =
     (acc_missing_title a = acc_missing_title b \<and> acc_missing_meta a = acc_missing_meta b
      \<and> acc_missing_h1 a = acc_missing_h1 b \<and> acc_thin a = acc_thin b
      \<and> acc_missing_alt a = acc_missing_alt b
      \<and> title_counts a = title_counts b \<and> meta_counts a = meta_counts b
      \<and> word_counts a = word_counts b)"

text \<open>The keys of the fetched pages.\<close>

definition content_keys :: "(string \<times> entry) list \<Rightarrow> string set" where
  "content_keys xs = fst ` set (filter (\<lambda>kv. is_content (snd kv)) xs)"

subsection \<open>Crawl results for the examples\<close>

text \<open>A crawl result of five addresses: the home page links to \<open>/b\<close>, which answered 404;
  \<open>/c\<close> shares the title of the home page, \<open>/d\<close> has that title with a trailing space, and
  the fetch of \<open>/e\<close> failed.\<close>

definition audit_page :: "string \<Rightarrow> string option list \<Rightarrow> onpage" where
  "audit_page t hrefs =
     \<lparr>on_title = t, on_meta_description = ''About us'', on_meta_robots = [], on_canonical = [],
      on_og = [], on_twitter = [], on_h1s = [''Welcome''], on_h2s = [], on_images = [],
      on_links = map (\<lambda>h. \<lparr>a_href = h, a_text = ''link''\<rparr>) hrefs, on_jsonld = [],
      on_word_count = 2, on_words = [''fast'', ''shoes''], on_body_text = ''fast shoes''\<rparr>"

definition audit_entry :: "string \<Rightarrow> onpage \<Rightarrow> entry" where
  "audit_entry u on =
     \<lparr>e_error = None, e_http = Some 200, e_final_url = Some u, e_elapsed = Some 0,
      e_headers = Some [], e_onpage = Some on\<rparr>"

definition audit_results :: "(string \<times> entry) list" where
  "audit_results =
     [(''http://a.com'', audit_entry ''http://a.com'' (audit_page ''Home'' [Some ''/b''])),
      (''http://a.com/b'', http_entry (Some 404) (Some ''http://a.com/b'')),
      (''http://a.com/c'', audit_entry ''http://a.com/c'' (audit_page ''Home'' [])),
      (''http://a.com/d'', audit_entry ''http://a.com/d'' (audit_page ''Home '' [])),
      (''http://a.com/e'', error_entry ''timed out'')]"

text \<open>A page of 81 different words, none a stopword, whose title is the last of them.\<close>

definition many_words :: "string list" where
  "many_words =
     [''qaa'', ''qab'', ''qac'', ''qad'', ''qae'', ''qaf'', ''qag'', ''qah'', ''qai'', ''qaj'',
      ''qak'', ''qal'', ''qam'', ''qan'', ''qao'', ''qap'', ''qaq'', ''qar'', ''qas'', ''qat'',
      ''qba'', ''qbb'', ''qbc'', ''qbd'', ''qbe'', ''qbf'', ''qbg'', ''qbh'', ''qbi'', ''qbj'',
      ''qbk'', ''qbl'', ''qbm'', ''qbn'', ''qbo'', ''qbp'', ''qbq'', ''qbr'', ''qbs'', ''qbt'',
      ''qca'', ''qcb'', ''qcc'', ''qcd'', ''qce'', ''qcf'', ''qcg'', ''qch'', ''qci'', ''qcj'',
      ''qck'', ''qcl'', ''qcm'', ''qcn'', ''qco'', ''qcp'', ''qcq'', ''qcr'', ''qcs'', ''qct'',
      ''qda'', ''qdb'', ''qdc'', ''qdd'', ''qde'', ''qdf'', ''qdg'', ''qdh'', ''qdi'', ''qdj'',
      ''qdk'', ''qdl'', ''qdm'', ''qdn'', ''qdo'', ''qdp'', ''qdq'', ''qdr'', ''qds'', ''qdt'',
      ''zz'']"

definition wordy_page :: onpage where
  "wordy_page =
     \<lparr>on_title = ''zz'', on_meta_description = [], on_meta_robots = [], on_canonical = [],
      on_og = [], on_twitter = [], on_h1s = [], on_h2s = [], on_images = [],
      on_links = [], on_jsonld = [],
      on_word_count = 81, on_words = many_words, on_body_text = join '' '' many_words\<rparr>"

definition wordy_results :: "(string \<times> entry) list" where
  "wordy_results = [(''http://a.com'', audit_entry ''http://a.com'' wordy_page)]"

text \<open>The state of the first loop of \<open>analyze\<close> after that page.\<close>

definition wordy_counts :: counter where
  "wordy_counts = map (\<lambda>w. (w, 1)) many_words"

definition wordy_acc :: acc where
  "wordy_acc =
     \<lparr>acc_missing_title = [], acc_missing_meta = [''http://a.com''],
      acc_missing_h1 = [''http://a.com''], acc_thin = [''http://a.com''],
      acc_missing_alt = [], acc_broken = [],
      acc_per_page = [(''http://a.com'', content_report_of wordy_page)],
      title_counts = [(''zz'', 1)], meta_counts = [], word_counts = wordy_counts\<rparr>"
section \<open>The link normaliser: definitions for the proofs\<close>

text \<open>The part of a path after its last slash, and the part up to that slash.\<close>

definition last_segment :: "string \<Rightarrow> string" where
  "last_segment y = rev (takeWhile (\<lambda>c. c \<noteq> CHR ''/'') (rev y))"

definition upto_last_slash :: "string \<Rightarrow> string" where
  "upto_last_slash y = take (length y - length (last_segment y)) y"

text \<open>The path and parameters of \<open>urlparse\<close>, put together again as \<open>urlunparse\<close> does.\<close>

definition reparam :: "string \<Rightarrow> string" where
  "reparam y =
     (if CHR '';'' \<in> set y
      then (if snd (splitparams y) = [] then fst (splitparams y)
            else fst (splitparams y) @ '';'' @ snd (splitparams y))
      else y)"

text \<open>The path as \<open>urlunsplit\<close> writes it after a network location.\<close>

definition slashed :: "string \<Rightarrow> string" where
  "slashed url = (if url = [] then url else if take 1 url = ''/'' then url else ''/'' @ url)"

text \<open>A text without the characters that \<open>urlsplit\<close> removes.\<close>

definition clean :: "string \<Rightarrow> bool" where
  "clean s = (set s \<inter> set unsafe_url_bytes = {})"

text \<open>A text that is empty or starts with one of \<open>/\<close>, \<open>?\<close>, \<open>#\<close>.\<close>

definition delimited :: "string \<Rightarrow> bool" where
  "delimited r = (case r of [] \<Rightarrow> True | c # cs \<Rightarrow> c \<in> set ''/?#'')"

text \<open>The three tests of \<open>urlsplit\<close> on the brackets of a network location.\<close>

definition brackets_ok :: "env \<Rightarrow> string \<Rightarrow> bool" where
  "brackets_ok env netloc =
     (if CHR ''['' \<in> set netloc \<and> CHR '']'' \<notin> set netloc then False
      else if CHR '']'' \<in> set netloc \<and> CHR ''['' \<notin> set netloc then False
      else if CHR ''['' \<in> set netloc \<and> CHR '']'' \<in> set netloc \<and>
              \<not> check_bracketed_host env
                  (text_before (CHR '']'') (text_after (CHR ''['') netloc))
      then False else True)"

text \<open>The network location of an address, empty when \<open>urlparse\<close> raises.\<close>

definition netloc_of :: "env \<Rightarrow> string \<Rightarrow> string" where
  "netloc_of env u = (case urlparse env u [] of Inl e \<Rightarrow> [] | Inr p \<Rightarrow> pr_netloc p)"

text \<open>The text that \<open>urlunsplit\<close> writes for a web scheme and an empty fragment.\<close>

definition web_text :: "string \<Rightarrow> string \<Rightarrow> string \<Rightarrow> string \<Rightarrow> string" where
  "web_text s n y q = s @ ''://'' @ n @ slashed y @ (if q = [] then [] else CHR ''?'' # q)"

section \<open>The crawl engine: proofs\<close>

lemma submit_all_round_inv:
  "round_inv st \<Longrightarrow> round_inv (submit_all max_pages to_visit st)"
proof (induction to_visit arbitrary: st)
  case Nil
  then show ?case by simp
next
  case (Cons url rest)
  show ?case
  proof (cases "pages_crawled st \<ge> max_pages \<or> url \<in> visited st")
    case True
    then show ?thesis using Cons by auto
  next
    case False
    let ?st = "(submit url (mark_visited url st))\<lparr>pages_crawled := pages_crawled st + 1\<rparr>"
    have "round_inv ?st"
      using Cons.prems False
      unfolding round_inv_def submit_def mark_visited_def
      by (auto simp: image_iff)
    then have "round_inv (submit_all max_pages rest ?st)" by (rule Cons.IH)
    then show ?thesis using False by simp
  qed
qed

lemma submit_all_results [simp]:
  "results (submit_all max_pages to_visit st) = results st"
  by (induction to_visit arbitrary: st) (auto simp: submit_def mark_visited_def)

lemma submit_all_next_round [simp]:
  "next_round (submit_all max_pages to_visit st) = next_round st"
  by (induction to_visit arbitrary: st) (auto simp: submit_def mark_visited_def)

lemma submit_all_bound:
  "pages_crawled st \<le> max 0 max_pages \<Longrightarrow>
   pages_crawled (submit_all max_pages to_visit st) \<le> max 0 max_pages"
  by (induction to_visit arbitrary: st) (auto simp: submit_def mark_visited_def)

lemma consider_link_frame:
  "visited (consider_link env start_url max_pages nurl st) = visited st"
  "results (consider_link env start_url max_pages nurl st) = results st"
  "pages_crawled (consider_link env start_url max_pages nurl st) = pages_crawled st"
  "futures (consider_link env start_url max_pages nurl st) = futures st"
  "submitted (consider_link env start_url max_pages nurl st) = submitted st"
  by (simp_all add: consider_link_def split: option.splits)

lemma collect_links_frame:
  "collect_links env start_url max_pages url ls st = Inr st' \<Longrightarrow>
   visited st' = visited st \<and> results st' = results st
   \<and> pages_crawled st' = pages_crawled st \<and> futures st' = futures st
   \<and> submitted st' = submitted st"
proof (induction ls arbitrary: st)
  case Nil
  then show ?case by simp
next
  case (Cons a rest)
  show ?case
  proof (cases "norm_url env url (a_href a)")
    case (Inl e)
    then show ?thesis using Cons.prems by simp
  next
    case (Inr nurl)
    then have "collect_links env start_url max_pages url rest
                 (consider_link env start_url max_pages nurl st) = Inr st'"
      using Cons.prems by simp
    from Cons.IH [OF this] show ?thesis by (simp add: consider_link_frame)
  qed
qed

lemma handle_result_frame:
  assumes "handle_result env start_url max_pages url st = Inr st'"
  shows "visited st' = visited st \<and> pages_crawled st' = pages_crawled st
         \<and> futures st' = futures st \<and> submitted st' = submitted st
         \<and> (\<exists>e. results st' = AList.update url e (results st))"
proof (cases "fetch env url")
  case (FetchError u e)
  then show ?thesis using assms by (cases "e = []") (auto simp: handle_result_def)
next
  case (Fetched res)
  show ?thesis
  proof (cases "f_status_code res = 200")
    case False
    then show ?thesis using assms Fetched by (auto simp: handle_result_def)
  next
    case True
    let ?on = "extract_onpage env url (f_text res)"
    let ?st = "st\<lparr>results := AList.update url (page_entry res ?on) (results st)\<rparr>"
    have "collect_links env start_url max_pages url (on_links ?on) ?st = Inr st'"
      using assms Fetched True by (simp add: handle_result_def Let_def)
    from collect_links_frame [OF this] show ?thesis by auto
  qed
qed

lemma complete_all_frame:
  "complete_all env start_url max_pages us st = Inr st' \<Longrightarrow>
   visited st' = visited st \<and> pages_crawled st' = pages_crawled st
   \<and> futures st' = futures st \<and> submitted st' = submitted st
   \<and> fst ` set (results st') = fst ` set (results st) \<union> set us
   \<and> (distinct (map fst (results st)) \<longrightarrow> distinct (map fst (results st')))"
proof (induction us arbitrary: st)
  case Nil
  then show ?case by simp
next
  case (Cons u rest)
  from Cons.prems obtain st1 where
    h: "handle_result env start_url max_pages u st = Inr st1" and
    c: "complete_all env start_url max_pages rest st1 = Inr st'"
    by (auto split: sum.splits)
  from handle_result_frame [OF h] obtain e where
    f: "visited st1 = visited st" "pages_crawled st1 = pages_crawled st"
       "futures st1 = futures st" "submitted st1 = submitted st"
       "results st1 = AList.update u e (results st)"
    by blast
  have k: "fst ` set (results st1) = insert u (fst ` set (results st))"
    using f(5) by (simp add: dom_update)
  have d: "distinct (map fst (results st)) \<Longrightarrow> distinct (map fst (results st1))"
    using f(5) by (simp add: distinct_update)
  from Cons.IH [OF c] f k d show ?case by auto
qed

lemma crawl_rounds_inv:
  "crawl_inv st \<Longrightarrow> pages_crawled st \<le> max 0 max_pages \<Longrightarrow>
   crawl_rounds env start_url max_pages workers n to_visit st = Inr st' \<Longrightarrow>
   crawl_inv st' \<and> pages_crawled st' \<le> max 0 max_pages"
proof (induction n arbitrary: st to_visit)
  case 0
  then show ?case by simp
next
  case (Suc n)
  show ?case
  proof (cases "pages_crawled st \<ge> max_pages")
    case True
    then show ?thesis using Suc.prems by simp
  next
    case False
    let ?st0 = "st\<lparr>futures := [], next_round := []\<rparr>"
    let ?st1 = "submit_all max_pages to_visit ?st0"
    from Suc.prems(3) False obtain st2 where
      c: "complete_all env start_url max_pages (sort_key (finish_time env) (futures ?st1)) ?st1
            = Inr st2" and
      r: "crawl_rounds env start_url max_pages workers n (next_round st2) st2 = Inr st'"
      by (auto split: if_splits sum.splits simp: Let_def)
    have "round_inv ?st0"
      using Suc.prems(1) unfolding crawl_inv_def round_inv_def by simp
    then have r1: "round_inv ?st1" by (rule submit_all_round_inv)
    have b1: "pages_crawled ?st1 \<le> max 0 max_pages"
      using Suc.prems(2) by (intro submit_all_bound) simp
    from complete_all_frame [OF c] have
      f: "visited st2 = visited ?st1" "pages_crawled st2 = pages_crawled ?st1"
         "submitted st2 = submitted ?st1"
         "fst ` set (results st2) = fst ` set (results ?st1) \<union> set (futures ?st1)"
         "distinct (map fst (results ?st1)) \<longrightarrow> distinct (map fst (results st2))"
      by simp_all
    have "crawl_inv st2"
      using r1 f unfolding crawl_inv_def round_inv_def by simp
    moreover have "pages_crawled st2 \<le> max 0 max_pages" using b1 f(2) by simp
    ultimately show ?thesis using Suc.IH r by blast
  qed
qed

lemma crawl_inv_initial: "crawl_inv initial_state"
  by (simp add: crawl_inv_def initial_state_def)

lemma crawl_run_inv:
  assumes "crawl_run env start_url depth max_pages workers = Inr st"
  shows "crawl_inv st \<and> pages_crawled st \<le> max 0 max_pages"
  using assms crawl_rounds_inv [OF crawl_inv_initial, of max_pages env _ workers]
  unfolding crawl_run_def by (simp add: initial_state_def)

lemma crawl_inv_length:
  assumes "crawl_inv st"
  shows "int (length (results st)) = pages_crawled st"
proof -
  from assms have d1: "distinct (map fst (results st))"
    and d2: "distinct (map fst (submitted st))"
    and e: "fst ` set (results st) = fst ` set (submitted st)"
    and l: "int (length (submitted st)) = pages_crawled st"
    by (simp_all add: crawl_inv_def)
  have "length (results st) = card (fst ` set (results st))"
    using distinct_card [OF d1] by simp
  also have "\<dots> = card (fst ` set (submitted st))" by (simp only: e)
  also have "\<dots> = length (submitted st)"
    using distinct_card [OF d2] by simp
  finally show ?thesis using l by simp
qed

text \<open>
  Claim C1. When \<open>crawl\<close> returns and \<open>max_pages\<close> is positive, the result mapping has at
  most \<open>max_pages\<close> entries; its keys are pairwise different, so the entries are that many
  addresses.
\<close>

theorem C1_results_at_most_max_pages:
  assumes "crawl env start_url depth max_pages workers = Inr res" and "0 < max_pages"
  shows "int (length res) \<le> max_pages \<and> distinct (map fst res)"
proof -
  from assms(1) obtain st where
    run: "crawl_run env start_url depth max_pages workers = Inr st" and res: "res = results st"
    by (auto simp: crawl_def split: sum.splits)
  from crawl_run_inv [OF run] have inv: "crawl_inv st" and b: "pages_crawled st \<le> max 0 max_pages"
    by simp_all
  from crawl_inv_length [OF inv] b assms(2) res inv show ?thesis
    by (simp add: crawl_inv_def)
qed

text \<open>
  Claim C2. In every crawl that returns, no address is submitted for a fetch twice, every
  address was in the visited set when its fetch was submitted, the submitted addresses
  are exactly the visited set, and the result mapping has exactly one entry for each of
  them.
\<close>

theorem C2_each_address_fetched_once:
  assumes "crawl_run env start_url depth max_pages workers = Inr st"
  shows "distinct (map fst (submitted st)) \<and> list_all snd (submitted st)
         \<and> fst ` set (submitted st) = visited st
         \<and> distinct (map fst (results st))
         \<and> fst ` set (results st) = fst ` set (submitted st)"
  using crawl_run_inv [OF assms] by (simp add: crawl_inv_def)


lemma new_targets_distinct:
  "distinct (new_targets env start_url url seen ls)
   \<and> set (new_targets env start_url url seen ls) \<inter> seen = {}"
proof (induction ls arbitrary: seen)
  case Nil
  then show ?case by simp
next
  case (Cons a rest)
  from Cons.IH [of seen] Cons.IH [of "insert (case norm_url env url (a_href a) of Inr (Some n) \<Rightarrow> n | _ \<Rightarrow> []) seen"]
  show ?case
    by (auto split: sum.splits option.splits)
qed

lemma collect_links_next_round:
  "collect_links env start_url max_pages url ls st = Inr st' \<Longrightarrow>
   next_round st' =
     next_round st @
     take (nat (max_pages - pages_crawled st - int (length (next_round st))))
       (new_targets env start_url url (visited st \<union> set (next_round st)) ls)"
proof (induction ls arbitrary: st)
  case Nil
  then show ?case by simp
next
  case (Cons a rest)
  show ?case
  proof (cases "norm_url env url (a_href a)")
    case (Inl e)
    then show ?thesis using Cons.prems by simp
  next
    case (Inr nurl)
    let ?st1 = "consider_link env start_url max_pages nurl st"
    have c: "collect_links env start_url max_pages url rest ?st1 = Inr st'"
      using Cons.prems Inr by simp
    note ih = Cons.IH [OF c]
    let ?seen = "visited st \<union> set (next_round st)"
    show ?thesis
    proof (cases "\<exists>n. nurl = Some n \<and> n \<noteq> [] \<and> is_same_domain env start_url n \<and> n \<notin> ?seen")
      case False
      then have "?st1 = st"
        by (auto simp: consider_link_def split: option.splits)
      moreover have "new_targets env start_url url ?seen (a # rest)
                     = new_targets env start_url url ?seen rest"
        using False Inr by (auto split: option.splits)
      ultimately show ?thesis using ih by simp
    next
      case True
      then obtain n where n: "nurl = Some n" "n \<noteq> []" "is_same_domain env start_url n"
        "n \<notin> visited st" "n \<notin> set (next_round st)" by auto
      have nt: "new_targets env start_url url ?seen (a # rest)
                = n # new_targets env start_url url (insert n ?seen) rest"
        using n Inr by simp
      show ?thesis
      proof (cases "int (length (next_round st)) + pages_crawled st < max_pages")
        case True
        then have s1: "?st1 = st\<lparr>next_round := next_round st @ [n]\<rparr>"
          using n by (simp add: consider_link_def)
        have k: "nat (max_pages - pages_crawled st - int (length (next_round st)))
                 = Suc (nat (max_pages - pages_crawled st - int (length (next_round st @ [n]))))"
          using True by simp
        have "next_round st' = (next_round st @ [n]) @
                take (nat (max_pages - pages_crawled st - int (length (next_round st @ [n]))))
                  (new_targets env start_url url (insert n ?seen) rest)"
          using ih unfolding s1 by (simp add: Un_commute insert_commute)
        then show ?thesis unfolding nt k by simp
      next
        case False
        then have s1: "?st1 = st" using n by (simp add: consider_link_def)
        have "nat (max_pages - pages_crawled st - int (length (next_round st))) = 0"
          using False by simp
        then show ?thesis using ih unfolding s1 by simp
      qed
    qed
  qed
qed

lemma submit_all_futures_all:
  "distinct tv \<Longrightarrow> set tv \<inter> visited st = {} \<Longrightarrow>
   pages_crawled st + int (length tv) \<le> max_pages \<Longrightarrow>
   futures (submit_all max_pages tv st) = futures st @ tv"
proof (induction tv arbitrary: st)
  case Nil
  then show ?case by simp
next
  case (Cons u rest)
  let ?st = "(submit u (mark_visited u st))\<lparr>pages_crawled := pages_crawled st + 1\<rparr>"
  have "futures (submit_all max_pages rest ?st) = futures ?st @ rest"
    using Cons.prems by (intro Cons.IH) (auto simp: submit_def mark_visited_def)
  then show ?case using Cons.prems by (simp add: submit_def mark_visited_def)
qed

lemma crawl_rounds_keys_mono:
  "crawl_rounds env start_url max_pages workers n to_visit st = Inr st' \<Longrightarrow>
   fst ` set (results st) \<subseteq> fst ` set (results st')"
proof (induction n arbitrary: st to_visit)
  case 0
  then show ?case by simp
next
  case (Suc n)
  show ?case
  proof (cases "pages_crawled st \<ge> max_pages")
    case True
    then show ?thesis using Suc.prems by simp
  next
    case False
    let ?st1 = "submit_all max_pages to_visit (st\<lparr>futures := [], next_round := []\<rparr>)"
    from Suc.prems False obtain st2 where
      c: "complete_all env start_url max_pages (sort_key (finish_time env) (futures ?st1)) ?st1
            = Inr st2" and
      r: "crawl_rounds env start_url max_pages workers n (next_round st2) st2 = Inr st'"
      by (auto split: if_splits sum.splits simp: Let_def)
    from complete_all_frame [OF c] have "fst ` set (results st) \<subseteq> fst ` set (results st2)"
      by auto
    with Suc.IH [OF r] show ?thesis by blast
  qed
qed


lemma crawl_rounds_SucE:
  assumes "crawl_rounds env start_url max_pages workers (Suc n) to_visit st = Inr st'"
    and "pages_crawled st < max_pages"
  obtains st2 where
    "0 < workers"
    "complete_all env start_url max_pages
       (sort_key (finish_time env)
          (futures (submit_all max_pages to_visit (st\<lparr>futures := [], next_round := []\<rparr>))))
       (submit_all max_pages to_visit (st\<lparr>futures := [], next_round := []\<rparr>)) = Inr st2"
    "crawl_rounds env start_url max_pages workers n (next_round st2) st2 = Inr st'"
  using assms by (auto split: if_splits sum.splits simp: Let_def)

lemma depth0_keys:
  assumes "crawl_rounds env A max_pages workers (Suc 0) [A] initial_state = Inr st"
  shows "fst ` set (results st) \<subseteq> {A}"
proof (cases "pages_crawled initial_state < max_pages")
  case False
  then have "st = initial_state" using assms by simp
  then show ?thesis by (simp add: initial_state_def)
next
  case True
  from crawl_rounds_SucE [OF assms True] obtain st2 where
    c: "complete_all env A max_pages
       (sort_key (finish_time env)
          (futures (submit_all max_pages [A] (initial_state\<lparr>futures := [], next_round := []\<rparr>))))
       (submit_all max_pages [A] (initial_state\<lparr>futures := [], next_round := []\<rparr>)) = Inr st2"
    and r: "crawl_rounds env A max_pages workers 0 (next_round st2) st2 = Inr st"
    by blast
  from r have "st = st2" by simp
  with complete_all_frame [OF c] True show ?thesis
    by (auto simp: initial_state_def submit_def mark_visited_def)
qed

lemma depth1_keys:
  assumes run: "crawl_rounds env A max_pages workers (Suc (Suc n)) [A] initial_state = Inr st"
    and get: "http_get env A = Inr r" and ok: "r_status_code r = 200"
    and B: "B \<in> set (take (nat (max_pages - 1))
              (new_targets env A A {A} (on_links (extract_onpage env A (r_text r)))))"
  shows "B \<in> fst ` set (results st)"
proof -
  define ls where "ls = on_links (extract_onpage env A (r_text r))"
  define nt where "nt = take (nat (max_pages - 1)) (new_targets env A A {A} ls)"
  from B have mp: "2 \<le> max_pages" by (cases "max_pages - 1 \<le> 0") auto
  then have lt0: "pages_crawled initial_state < max_pages" by (simp add: initial_state_def)
  define st1 where
    "st1 = submit_all max_pages [A] (initial_state\<lparr>futures := [], next_round := []\<rparr>)"
  have st1: "st1 = \<lparr>visited = {A}, results = [], pages_crawled = 1, futures = [A],
                     next_round = [], submitted = [(A, True)]\<rparr>"
    using mp by (simp add: st1_def initial_state_def submit_def mark_visited_def)
  from crawl_rounds_SucE [OF run lt0] obtain st2 where
    w: "0 < workers" and
    c: "complete_all env A max_pages (sort_key (finish_time env) (futures st1)) st1 = Inr st2"
    and r2: "crawl_rounds env A max_pages workers (Suc n) (next_round st2) st2 = Inr st"
    unfolding st1_def by blast
  have f: "fetch env A = Fetched \<lparr>f_url = A, f_status_code = 200, f_elapsed = r_seconds r,
             f_text = r_text r, f_final_url = r_url r, f_headers = r_headers r\<rparr>"
    using get ok by (simp add: fetch_def)
  have fu: "sort_key (finish_time env) (futures st1) = [A]" by (simp add: st1)
  from c obtain e where
    cl: "collect_links env A max_pages A ls (st1\<lparr>results := AList.update A e (results st1)\<rparr>)
           = Inr st2"
    unfolding fu by (auto simp: handle_result_def f Let_def ls_def split: sum.splits)
  from collect_links_next_round [OF cl] have nr: "next_round st2 = nt"
    by (simp add: st1 nt_def)
  from collect_links_frame [OF cl] have fr: "visited st2 = {A}" "pages_crawled st2 = 1"
    by (simp_all add: st1)
  have lt1: "pages_crawled st2 < max_pages" using fr mp by simp
  define st3 where
    "st3 = submit_all max_pages (next_round st2) (st2\<lparr>futures := [], next_round := []\<rparr>)"
  from crawl_rounds_SucE [OF r2 lt1] obtain st4 where
    c4: "complete_all env A max_pages (sort_key (finish_time env) (futures st3)) st3 = Inr st4"
    and r4: "crawl_rounds env A max_pages workers n (next_round st4) st4 = Inr st"
    unfolding st3_def by blast
  have d: "distinct nt" "set nt \<inter> {A} = {}"
    using new_targets_distinct [of env A A "{A}" ls]
    by (auto simp: nt_def dest: in_set_takeD)
  have len: "int (length nt) \<le> max_pages - 1" using mp by (simp add: nt_def)
  have "futures st3 = futures (st2\<lparr>futures := [], next_round := []\<rparr>) @ nt"
    unfolding st3_def nr
    by (rule submit_all_futures_all) (use d fr len in simp_all)
  then have "B \<in> set (sort_key (finish_time env) (futures st3))"
    using B by (simp add: nt_def ls_def)
  with complete_all_frame [OF c4] have "B \<in> fst ` set (results st4)" by blast
  with crawl_rounds_keys_mono [OF r4] show ?thesis by blast
qed

text \<open>
  Claim C3, amended. Let \<open>A\<close> be the seed without its trailing slashes and \<open>B\<close> another
  address. With depth 0, \<open>B\<close> is not a key of the result mapping. With depth at least 1,
  when \<open>A\<close> answers 200 and \<open>B\<close> is among the first \<open>max_pages - 1\<close> distinct same-site
  addresses, other than \<open>A\<close>, that the anchors of \<open>A\<close> normalise to, \<open>B\<close> is a key of the
  result mapping.
\<close>

theorem C3_depth_ordering:
  assumes cr: "crawl env start_url depth max_pages workers = Inr res"
    and A: "A = rstrip_with (\<lambda>c. c = CHR ''/'') start_url"
    and BA: "B \<noteq> A"
  shows "(depth = 0 \<longrightarrow> B \<notin> fst ` set res) \<and>
         (1 \<le> depth \<longrightarrow> http_get env A = Inr r \<longrightarrow> r_status_code r = 200 \<longrightarrow>
            B \<in> set (take (nat (max_pages - 1))
                  (new_targets env A A {A} (on_links (extract_onpage env A (r_text r))))) \<longrightarrow>
            B \<in> fst ` set res)"
proof -
  from cr obtain st where
    run: "crawl_rounds env A max_pages workers (nat (depth + 1)) [A] initial_state = Inr st"
    and res: "res = results st"
    by (auto simp: crawl_def crawl_run_def A split: sum.splits)
  have p1: "B \<notin> fst ` set res" if "depth = 0"
    using depth0_keys [of env A max_pages workers st] run that BA res by auto
  have p2: "B \<in> fst ` set res" if "1 \<le> depth" "http_get env A = Inr r" "r_status_code r = 200"
    "B \<in> set (take (nat (max_pages - 1))
                  (new_targets env A A {A} (on_links (extract_onpage env A (r_text r)))))"
  proof -
    from that(1) have "nat (depth + 1) = Suc (Suc (nat (depth - 1)))" by simp
    with run have "crawl_rounds env A max_pages workers (Suc (Suc (nat (depth - 1)))) [A]
                     initial_state = Inr st" by simp
    from depth1_keys [OF this that(2,3,4)] res show ?thesis by simp
  qed
  from p1 p2 show ?thesis by blast
qed

subsection \<open>The small site, crawled\<close>

lemma site_crawl_returns:
  "\<not> isl (crawl site_env ''http://a.com/'' 1 2 8)"
  "\<not> isl (crawl site_env ''http://a.com/'' 1 3 8)"
  "\<not> isl (crawl site_env ''http://a.com/'' 0 3 8)"
  "\<not> isl (crawl_run site_env ''http://a.com/'' 1 3 8)"
  by code_simp+

lemma site_seed: "rstrip_with (\<lambda>c. c = CHR ''/'') ''http://a.com/'' = ''http://a.com''"
  by code_simp

lemma site_home:
  "site_get ''http://a.com''
     = Inr \<lparr>r_status_code = 200, r_text = ''A'', r_url = ''http://a.com'', r_headers = [],
            r_seconds = 0\<rparr>"
  by (simp add: site_get_def)

lemma site_targets:
  "new_targets site_env ''http://a.com'' ''http://a.com'' {''http://a.com''}
     (on_links (extract_onpage site_env ''http://a.com'' ''A''))
   = [''http://a.com/c'', ''http://a.com/b'']"
  by code_simp

text \<open>Witness of C1: the small site with a budget of two pages.\<close>

theorem C1_witness:
  "(0::int) < 2
   \<and> int (length (projr (crawl site_env ''http://a.com/'' 1 2 8))) \<le> 2
   \<and> distinct (map fst (projr (crawl site_env ''http://a.com/'' 1 2 8)))"
proof -
  have "crawl site_env ''http://a.com/'' 1 2 8
        = Inr (projr (crawl site_env ''http://a.com/'' 1 2 8))"
    using site_crawl_returns(1) by (cases "crawl site_env ''http://a.com/'' 1 2 8") auto
  from C1_results_at_most_max_pages [OF this] show ?thesis by simp
qed

text \<open>Witness of C2: the small site with a budget of three pages.\<close>

theorem C2_witness:
  "distinct (map fst (submitted (projr (crawl_run site_env ''http://a.com/'' 1 3 8))))
   \<and> list_all snd (submitted (projr (crawl_run site_env ''http://a.com/'' 1 3 8)))
   \<and> fst ` set (submitted (projr (crawl_run site_env ''http://a.com/'' 1 3 8)))
       = visited (projr (crawl_run site_env ''http://a.com/'' 1 3 8))
   \<and> distinct (map fst (results (projr (crawl_run site_env ''http://a.com/'' 1 3 8))))
   \<and> fst ` set (results (projr (crawl_run site_env ''http://a.com/'' 1 3 8)))
       = fst ` set (submitted (projr (crawl_run site_env ''http://a.com/'' 1 3 8)))"
proof -
  have "crawl_run site_env ''http://a.com/'' 1 3 8
        = Inr (projr (crawl_run site_env ''http://a.com/'' 1 3 8))"
    using site_crawl_returns(4) by (cases "crawl_run site_env ''http://a.com/'' 1 3 8") auto
  from C2_each_address_fetched_once [OF this] show ?thesis .
qed

text \<open>Witness of C3: with a budget of three pages, \<open>/b\<close> is absent at depth 0 and present
  at depth 1.\<close>

theorem C3_witness:
  "''http://a.com/b'' \<notin> fst ` set (projr (crawl site_env ''http://a.com/'' 0 3 8))
   \<and> ''http://a.com/b'' \<in> fst ` set (projr (crawl site_env ''http://a.com/'' 1 3 8))"
proof -
  have r0: "crawl site_env ''http://a.com/'' 0 3 8
            = Inr (projr (crawl site_env ''http://a.com/'' 0 3 8))"
    using site_crawl_returns(3) by (cases "crawl site_env ''http://a.com/'' 0 3 8") auto
  have r1: "crawl site_env ''http://a.com/'' 1 3 8
            = Inr (projr (crawl site_env ''http://a.com/'' 1 3 8))"
    using site_crawl_returns(2) by (cases "crawl site_env ''http://a.com/'' 1 3 8") auto
  have ne: "''http://a.com/b'' \<noteq> ''http://a.com''" by simp
  have g: "http_get site_env ''http://a.com''
           = Inr \<lparr>r_status_code = 200, r_text = ''A'', r_url = ''http://a.com'',
                  r_headers = [], r_seconds = 0\<rparr>"
    by (simp add: site_env_def site_home)
  have t: "''http://a.com/b'' \<in> set (take (nat (3 - 1))
             (new_targets site_env ''http://a.com'' ''http://a.com'' {''http://a.com''}
               (on_links (extract_onpage site_env ''http://a.com''
                  (r_text \<lparr>r_status_code = 200, r_text = ''A'', r_url = ''http://a.com'',
                           r_headers = [], r_seconds = 0\<rparr>)))))"
    by (simp add: site_targets)
  from C3_depth_ordering [OF r0 site_seed [symmetric] ne]
  have "''http://a.com/b'' \<notin> fst ` set (projr (crawl site_env ''http://a.com/'' 0 3 8))"
    by simp
  moreover from C3_depth_ordering [OF r1 site_seed [symmetric] ne] g t
  have "''http://a.com/b'' \<in> fst ` set (projr (crawl site_env ''http://a.com/'' 1 3 8))"
    by simp
  ultimately show ?thesis by simp
qed

text \<open>
  Counterexample to C3 as stated: \<open>/b\<close> is linked from the seed page only, the depth is 1
  and the budget is two pages, yet the crawl returns the seed and \<open>/c\<close> only.
\<close>

theorem C3_counterexample:
  "map a_href (on_links (extract_onpage site_env ''http://a.com'' ''A''))
     = [Some ''/c'', Some ''/b'']
   \<and> norm_url site_env ''http://a.com'' (Some ''/b'') = Inr (Some ''http://a.com/b'')
   \<and> map_sum id (map fst) (crawl site_env ''http://a.com/'' 1 2 8)
     = Inr [''http://a.com'', ''http://a.com/c'']"
  by code_simp

section \<open>The page extractor: proofs\<close>

lemma meta_step_desc:
  "meta_desc (meta_step tag st) =
     (if py_lower (attr_get tag ''name'' []) = ''description'' \<and> attr_truthy tag ''content''
      then py_strip (attr_get tag ''content'' []) else meta_desc st)"
  by (auto simp: meta_step_def Let_def)

lemma meta_step_robots:
  "meta_robots (meta_step tag st) =
     (if py_lower (attr_get tag ''name'' []) = ''robots'' \<and> attr_truthy tag ''content''
      then py_strip (attr_get tag ''content'' []) else meta_robots st)"
  by (auto simp: meta_step_def Let_def)

lemma fold_meta_desc:
  "meta_desc (fold meta_step tags st) =
     (case rev (filter (\<lambda>tag. py_lower (attr_get tag ''name'' []) = ''description''
                              \<and> attr_truthy tag ''content'') tags) of
        [] \<Rightarrow> meta_desc st
      | tag # _ \<Rightarrow> py_strip (attr_get tag ''content'' []))"
proof (induction tags arbitrary: st rule: rev_induct)
  case Nil
  then show ?case by simp
next
  case (snoc tag tags)
  then show ?case by (simp add: meta_step_desc)
qed

lemma fold_meta_robots:
  "meta_robots (fold meta_step tags st) =
     (case rev (filter (\<lambda>tag. py_lower (attr_get tag ''name'' []) = ''robots''
                              \<and> attr_truthy tag ''content'') tags) of
        [] \<Rightarrow> meta_robots st
      | tag # _ \<Rightarrow> py_strip (attr_get tag ''content'' []))"
proof (induction tags arbitrary: st rule: rev_induct)
  case Nil
  then show ?case by simp
next
  case (snoc tag tags)
  then show ?case by (simp add: meta_step_robots)
qed

text \<open>
  Claim C5, amended. The meta description of the extracted record is the trimmed content
  of the last meta tag whose name is \<open>description\<close>, case-insensitively, and whose content
  is there and not empty; it is the empty string when there is no such tag. The same holds
  for the robots field and the name \<open>robots\<close>.
\<close>

theorem C5_meta_last_wins:
  "on_meta_description (extract_onpage env url html)
     = last_meta_content ''description'' (soup_metas (soup_parse env html))
   \<and> on_meta_robots (extract_onpage env url html)
     = last_meta_content ''robots'' (soup_metas (soup_parse env html))"
  by (simp add: extract_onpage_def Let_def meta_loop_def last_meta_content_def
        fold_meta_desc fold_meta_robots split: list.splits)

text \<open>
  Counterexample to C5 as stated: with two description tags, the extractor returns the
  content of the second, not of the first.
\<close>

theorem C5_counterexample:
  "on_meta_description (extract_onpage two_meta_env [] []) = ''second''
   \<and> first_meta_content ''description'' (soup_metas (soup_parse two_meta_env [])) = ''first''"
  by code_simp

section \<open>The analysis engine: proofs\<close>

subsection \<open>One step of the first loop\<close>

lemma page_step_failure:
  assumes "\<not> is_content r" and "page_step env res url r a = Inr a'"
  shows "a' = a\<lparr>acc_per_page := AList.update url (failure_report r) (acc_per_page a)\<rparr>"
  using assms
  by (auto simp: page_step_def is_content_def failure_report_def split: option.splits if_splits)

lemma page_step_content:
  assumes "is_content r" and "page_step env res url r a = Inr a'"
  obtains on bl where "e_onpage r = Some on"
    and "broken_loop env res url (on_links on) [] = Inr bl"
    and "a' = content_step url on bl a"
  using assms
  by (auto simp: page_step_def is_content_def split: option.splits sum.splits)

lemma content_step_fields:
  "acc_missing_title (content_step url on bl a)
     = (if on_title on = [] then acc_missing_title a @ [url] else acc_missing_title a)"
  "acc_missing_meta (content_step url on bl a)
     = (if on_meta_description on = [] then acc_missing_meta a @ [url] else acc_missing_meta a)"
  "acc_missing_h1 (content_step url on bl a)
     = (if on_h1s on = [] then acc_missing_h1 a @ [url] else acc_missing_h1 a)"
  "acc_thin (content_step url on bl a)
     = (if on_word_count on < 300 then acc_thin a @ [url] else acc_thin a)"
  "acc_missing_alt (content_step url on bl a)
     = (if map img_src (filter (\<lambda>img. img_alt img = []) (on_images on)) = []
        then acc_missing_alt a
        else AList.update url (map img_src (filter (\<lambda>img. img_alt img = []) (on_images on)))
               (acc_missing_alt a))"
  "acc_broken (content_step url on bl a)
     = (if bl = [] then acc_broken a else AList.update url bl (acc_broken a))"
  "word_counts (content_step url on bl a)
     = counter_update (filter (\<lambda>w. w \<notin> STOPWORDS) (on_words on)) (word_counts a)"
  "title_counts (content_step url on bl a)
     = (if on_title on = [] then title_counts a else counter_incr (on_title on) (title_counts a))"
  "meta_counts (content_step url on bl a)
     = (if on_meta_description on = [] then meta_counts a
        else counter_incr (on_meta_description on) (meta_counts a))"
  "acc_per_page (content_step url on bl a)
     = AList.update url (content_report_of on) (acc_per_page a)"
  by (simp_all add: content_step_def Let_def content_report_of_def)

subsection \<open>Counters\<close>

lemma list_all_update:
  "list_all P al \<Longrightarrow> P (k, v) \<Longrightarrow> list_all P (AList.update k v al)"
  by (induction al) auto

lemma counter_incr_ok: "counter_ok c \<Longrightarrow> counter_ok (counter_incr k c)"
  by (simp add: counter_ok_def counter_incr_def distinct_update list_all_update
        split: option.splits)

lemma count_of_incr:
  "count_of (counter_incr k c) k' = count_of c k' + (if k = k' then 1 else 0)"
  by (simp add: count_of_def counter_incr_def update_conv' split: option.splits)

lemma counter_ok_lookup:
  assumes "counter_ok c"
  shows "map_of c k = Some n \<longleftrightarrow> n = count_of c k \<and> 0 < n"
proof
  assume m: "map_of c k = Some n"
  then have "(k, n) \<in> set c" by (rule map_of_SomeD)
  with assms have "0 < n" by (auto simp: counter_ok_def list_all_iff)
  with m show "n = count_of c k \<and> 0 < n" by (simp add: count_of_def)
next
  assume "n = count_of c k \<and> 0 < n"
  then show "map_of c k = Some n" by (auto simp: count_of_def split: option.splits)
qed

lemma fold_duplicates:
  "distinct (map fst c) \<Longrightarrow> fst ` set c \<inter> fst ` set d = {} \<Longrightarrow>
   map_of (fold (\<lambda>tc d. if 1 < snd tc then AList.update (fst tc) (snd tc) d else d) c d) t
   = (case map_of c t of
        Some n \<Rightarrow> if 1 < n then Some n else map_of d t
      | None \<Rightarrow> map_of d t)"
proof (induction c arbitrary: d)
  case Nil
  then show ?case by simp
next
  case (Cons kv c)
  obtain k n where kv: "kv = (k, n)" by (cases kv)
  let ?d = "if 1 < n then AList.update k n d else d"
  have disj: "fst ` set c \<inter> fst ` set ?d = {}"
    using Cons.prems by (auto simp: kv dom_update)
  have dist: "distinct (map fst c)" using Cons.prems by simp
  have knc: "map_of c k = None"
    using Cons.prems by (simp add: kv map_of_eq_None_iff)
  have knd: "map_of d k = None"
    using Cons.prems by (auto simp: kv map_of_eq_None_iff)
  show ?case
    using Cons.IH [OF dist disj] knc knd
    by (cases "1 < n"; cases "t = k"; cases "map_of c t"; simp add: kv update_conv')
qed

lemma duplicates_lookup:
  assumes "counter_ok c"
  shows "map_of (duplicates c) t = Some n \<longleftrightarrow> n = count_of c t \<and> 1 < n"
proof -
  have "map_of (duplicates c) t
        = (case map_of c t of Some n \<Rightarrow> if 1 < n then Some n else None | None \<Rightarrow> None)"
    unfolding duplicates_def using assms
    by (subst fold_duplicates) (simp_all add: counter_ok_def split: option.splits)
  then show ?thesis
    by (cases "map_of c t") (auto simp: count_of_def)
qed

subsection \<open>Duplicate titles and descriptions\<close>

lemma page_step_counts:
  assumes "page_step env res url r a = Inr a'"
    and "counter_ok (title_counts a)" and "counter_ok (meta_counts a)"
  shows "counter_ok (title_counts a') \<and> counter_ok (meta_counts a')
     \<and> count_of (title_counts a') t = count_of (title_counts a) t + title_count [(url, r)] t
     \<and> count_of (meta_counts a') m = count_of (meta_counts a) m + meta_count [(url, r)] m"
proof (cases "is_content r")
  case False
  from page_step_failure [OF False assms(1)] assms(2,3) False show ?thesis
    by (simp add: title_count_def meta_count_def entry_title_def entry_meta_def)
next
  case True
  from page_step_content [OF True assms(1)] obtain on bl where
    on: "e_onpage r = Some on" and a': "a' = content_step url on bl a"
    by blast
  show ?thesis
    using assms(2,3) True on
    by (auto simp: a' content_step_fields counter_incr_ok count_of_incr title_count_def
          meta_count_def entry_title_def entry_meta_def)
qed

lemma title_count_Cons:
  "title_count (kv # xs) t = title_count [kv] t + title_count xs t"
  by (simp add: title_count_def)

lemma meta_count_Cons:
  "meta_count (kv # xs) m = meta_count [kv] m + meta_count xs m"
  by (simp add: meta_count_def)

lemma page_loop_counts:
  "page_loop env res xs a = Inr a' \<Longrightarrow>
   counter_ok (title_counts a) \<Longrightarrow> counter_ok (meta_counts a) \<Longrightarrow>
   counter_ok (title_counts a') \<and> counter_ok (meta_counts a')
   \<and> count_of (title_counts a') t = count_of (title_counts a) t + title_count xs t
   \<and> count_of (meta_counts a') m = count_of (meta_counts a) m + meta_count xs m"
proof (induction xs arbitrary: a)
  case Nil
  then show ?case by (simp add: title_count_def meta_count_def)
next
  case (Cons kv xs)
  from Cons.prems(1) obtain a1 where
    s: "page_step env res (fst kv) (snd kv) a = Inr a1" and
    l: "page_loop env res xs a1 = Inr a'"
    by (auto split: sum.splits)
  from page_step_counts [OF s Cons.prems(2,3), of t m] have
    ok: "counter_ok (title_counts a1)" "counter_ok (meta_counts a1)" and
    c: "count_of (title_counts a1) t = count_of (title_counts a) t + title_count [kv] t"
       "count_of (meta_counts a1) m = count_of (meta_counts a) m + meta_count [kv] m"
    by simp_all
  from Cons.IH [OF l ok] c title_count_Cons [of kv xs t] meta_count_Cons [of kv xs m]
  show ?case by simp
qed

text \<open>
  Claim C8. When \<open>analyze\<close> returns, its duplicate-titles output maps a title \<open>t\<close> to a
  count \<open>c\<close> exactly when \<open>c\<close> is the number of fetched pages (no error, status 200) whose
  title is not empty and equals \<open>t\<close> character for character, and \<open>c > 1\<close>. The same holds
  for the duplicate meta descriptions.
\<close>

theorem C8_duplicates_exact:
  assumes "analyze env res = Inr s"
  shows "(map_of (duplicate_titles s) t = Some c \<longleftrightarrow> c = title_count res t \<and> 1 < c)
       \<and> (map_of (duplicate_meta_descriptions s) m = Some d
            \<longleftrightarrow> d = meta_count res m \<and> 1 < d)"
proof -
  from assms obtain a where
    l: "page_loop env res res empty_acc = Inr a" and
    s: "s = summarize res a (phrase_loop res)"
    by (auto simp: analyze_def split: sum.splits)
  have e: "counter_ok (title_counts empty_acc)" "counter_ok (meta_counts empty_acc)"
    by (simp_all add: empty_acc_def counter_ok_def)
  from page_loop_counts [OF l e, of t m] have
    ok: "counter_ok (title_counts a)" "counter_ok (meta_counts a)" and
    c: "count_of (title_counts a) t = title_count res t"
       "count_of (meta_counts a) m = meta_count res m"
    by (simp_all add: empty_acc_def count_of_def)
  show ?thesis
    using duplicates_lookup [OF ok(1), of t c] duplicates_lookup [OF ok(2), of m d] c
    by (simp add: s summarize_def Let_def)
qed


subsection \<open>Broken links\<close>

lemma urlunsplit_nonempty: "scheme \<noteq> [] \<Longrightarrow> urlunsplit scheme netloc url query fragment \<noteq> []"
  by (simp add: urlunsplit_def Let_def)

lemma norm_url_nonempty:
  assumes "norm_url env base l = Inr (Some u)"
  shows "u \<noteq> []"
proof -
  from assms obtain p where "pr_scheme p \<in> set [''http'', ''https'']"
    and "u = urlunparse (p\<lparr>pr_fragment := []\<rparr>)"
    by (auto simp: norm_url_def Let_def split: option.splits if_splits sum.splits)
  then show ?thesis
    by (auto simp: urlunparse_def urlunsplit_nonempty)
qed

lemma check_link_mono: "set bl \<subseteq> set (check_link env res url nurl bl)"
  by (auto simp: check_link_def split: option.splits)

lemma check_link_hit:
  assumes "B \<noteq> []" and "is_same_domain env url B" and "map_of res B = Some rB"
    and "e_http rB = Some h" and "h \<noteq> 0" and "h \<noteq> 200"
  shows "\<lparr>b_href = B, b_http = Some h\<rparr> \<in> set (check_link env res url (Some B) bl)"
  using assms by (simp add: check_link_def)

lemma broken_loop_mono:
  "broken_loop env res url ls bl = Inr bl' \<Longrightarrow> set bl \<subseteq> set bl'"
proof (induction ls arbitrary: bl)
  case Nil
  then show ?case by simp
next
  case (Cons a rest)
  from Cons.prems obtain nurl where
    n: "norm_url env url (a_href a) = Inr nurl" and
    l: "broken_loop env res url rest (check_link env res url nurl bl) = Inr bl'"
    by (auto split: sum.splits)
  from Cons.IH [OF l] check_link_mono [of bl env res url nurl] show ?case by blast
qed

lemma broken_loop_hit:
  "broken_loop env res url ls bl = Inr bl' \<Longrightarrow> a \<in> set ls \<Longrightarrow>
   norm_url env url (a_href a) = Inr (Some B) \<Longrightarrow> is_same_domain env url B \<Longrightarrow>
   map_of res B = Some rB \<Longrightarrow> e_http rB = Some h \<Longrightarrow> h \<noteq> 0 \<Longrightarrow> h \<noteq> 200 \<Longrightarrow>
   \<lparr>b_href = B, b_http = Some h\<rparr> \<in> set bl'"
proof (induction ls arbitrary: bl)
  case Nil
  then show ?case by simp
next
  case (Cons x rest)
  from Cons.prems(1) obtain nurl where
    n: "norm_url env url (a_href x) = Inr nurl" and
    l: "broken_loop env res url rest (check_link env res url nurl bl) = Inr bl'"
    by (auto split: sum.splits)
  show ?case
  proof (cases "a = x")
    case True
    with n Cons.prems(3) have nurl: "nurl = Some B" by simp
    have "B \<noteq> []" using Cons.prems(3) by (rule norm_url_nonempty)
    from check_link_hit [OF this Cons.prems(4,5,6,7,8)]
    have "\<lparr>b_href = B, b_http = Some h\<rparr> \<in> set (check_link env res url nurl bl)"
      by (simp add: nurl)
    with broken_loop_mono [OF l] show ?thesis by blast
  next
    case False
    with Cons.prems(2) have "a \<in> set rest" by simp
    from Cons.IH [OF l this Cons.prems(3,4,5,6,7,8)] show ?thesis .
  qed
qed

lemma page_step_frame:
  assumes "page_step env res url r a = Inr a'" and "k \<noteq> url"
  shows "map_of (acc_broken a') k = map_of (acc_broken a) k
       \<and> map_of (acc_per_page a') k = map_of (acc_per_page a) k"
proof (cases "is_content r")
  case False
  from page_step_failure [OF False assms(1)] assms(2) show ?thesis
    by (simp add: update_conv')
next
  case True
  from page_step_content [OF True assms(1)] obtain on bl where
    a': "a' = content_step url on bl a" by blast
  show ?thesis
    using assms(2) by (simp add: a' content_step_fields(6,10) update_conv')
qed

lemma page_loop_frame:
  "page_loop env res xs a = Inr a' \<Longrightarrow> k \<notin> fst ` set xs \<Longrightarrow>
   map_of (acc_broken a') k = map_of (acc_broken a) k
   \<and> map_of (acc_per_page a') k = map_of (acc_per_page a) k"
proof (induction xs arbitrary: a)
  case Nil
  then show ?case by simp
next
  case (Cons kv xs)
  from Cons.prems(1) obtain a1 where
    s: "page_step env res (fst kv) (snd kv) a = Inr a1" and
    l: "page_loop env res xs a1 = Inr a'"
    by (auto split: sum.splits)
  from Cons.prems(2) have k: "k \<noteq> fst kv" "k \<notin> fst ` set xs" by auto
  from page_step_frame [OF s k(1)] Cons.IH [OF l k(2)] show ?case by simp
qed

lemma page_loop_broken:
  "page_loop env res xs a = Inr a' \<Longrightarrow> distinct (map fst xs) \<Longrightarrow> (A, rA) \<in> set xs \<Longrightarrow>
   is_content rA \<Longrightarrow> e_onpage rA = Some on \<Longrightarrow> l \<in> set (on_links on) \<Longrightarrow>
   norm_url env A (a_href l) = Inr (Some B) \<Longrightarrow> is_same_domain env A B \<Longrightarrow>
   map_of res B = Some rB \<Longrightarrow> e_http rB = Some h \<Longrightarrow> h \<noteq> 0 \<Longrightarrow> h \<noteq> 200 \<Longrightarrow>
   \<exists>bl. map_of (acc_broken a') A = Some bl \<and> \<lparr>b_href = B, b_http = Some h\<rparr> \<in> set bl"
proof (induction xs arbitrary: a)
  case Nil
  then show ?case by simp
next
  case (Cons kv xs)
  from Cons.prems(1) obtain a1 where
    s: "page_step env res (fst kv) (snd kv) a = Inr a1" and
    lp: "page_loop env res xs a1 = Inr a'"
    by (auto split: sum.splits)
  show ?case
  proof (cases "kv = (A, rA)")
    case True
    with s have s': "page_step env res A rA a = Inr a1" by simp
    from page_step_content [OF Cons.prems(4) s'] Cons.prems(5) obtain bl where
      b: "broken_loop env res A (on_links on) [] = Inr bl" and
      a1: "a1 = content_step A on bl a"
      by auto
    from broken_loop_hit [OF b Cons.prems(6,7,8,9,10,11,12)]
    have hit: "\<lparr>b_href = B, b_http = Some h\<rparr> \<in> set bl" .
    then have "bl \<noteq> []" by auto
    then have "map_of (acc_broken a1) A = Some bl"
      by (simp add: a1 content_step_fields(6) update_conv')
    moreover have "A \<notin> fst ` set xs" using Cons.prems(2) True by auto
    ultimately have "map_of (acc_broken a') A = Some bl"
      using page_loop_frame [OF lp] by simp
    with hit show ?thesis by blast
  next
    case False
    with Cons.prems(3) have "(A, rA) \<in> set xs" by simp
    moreover have "distinct (map fst xs)" using Cons.prems(2) by simp
    ultimately show ?thesis
      using Cons.IH [OF lp] Cons.prems(4,5,6,7,8,9,10,11,12) by blast
  qed
qed

text \<open>
  Claim C7. Let the result mapping hold a fetched page \<open>A\<close> (no error, status 200) with an
  anchor whose link normalises, against \<open>A\<close>, to \<open>B\<close>; let \<open>B\<close> be same-site relative to
  \<open>A\<close> and be a key of the mapping with status 404. When \<open>analyze\<close> returns, its
  broken-links output has an entry under \<open>A\<close> that lists \<open>B\<close> with status 404.
\<close>

theorem C7_broken_link_reported:
  assumes "analyze env res = Inr s" and "distinct (map fst res)"
    and "(A, rA) \<in> set res" and "e_error rA = None" and "e_http rA = Some 200"
    and "e_onpage rA = Some on" and "l \<in> set (on_links on)"
    and "norm_url env A (a_href l) = Inr (Some B)" and "is_same_domain env A B"
    and "map_of res B = Some rB" and "e_http rB = Some 404"
  shows "\<exists>bl. map_of (broken_links s) A = Some bl
              \<and> \<lparr>b_href = B, b_http = Some 404\<rparr> \<in> set bl"
proof -
  from assms(1) obtain a where
    lp: "page_loop env res res empty_acc = Inr a" and
    s: "s = summarize res a (phrase_loop res)"
    by (auto simp: analyze_def split: sum.splits)
  have c: "is_content rA" using assms(4,5) by (simp add: is_content_def)
  from page_loop_broken [OF lp assms(2,3) c assms(6,7,8,9,10,11)]
  show ?thesis by (simp add: s summarize_def Let_def)
qed


subsection \<open>Entries that are not fetched pages\<close>

lemma page_loop_failure_report:
  "page_loop env res xs a = Inr a' \<Longrightarrow> distinct (map fst xs) \<Longrightarrow> (k, r) \<in> set xs \<Longrightarrow>
   \<not> is_content r \<Longrightarrow> map_of (acc_per_page a') k = Some (failure_report r)"
proof (induction xs arbitrary: a)
  case Nil
  then show ?case by simp
next
  case (Cons kv xs)
  from Cons.prems(1) obtain a1 where
    s: "page_step env res (fst kv) (snd kv) a = Inr a1" and
    lp: "page_loop env res xs a1 = Inr a'"
    by (auto split: sum.splits)
  show ?case
  proof (cases "kv = (k, r)")
    case True
    with s have "page_step env res k r a = Inr a1" by simp
    from page_step_failure [OF Cons.prems(4) this]
    have "map_of (acc_per_page a1) k = Some (failure_report r)" by (simp add: update_conv')
    moreover have "k \<notin> fst ` set xs" using Cons.prems(2) True by auto
    ultimately show ?thesis using page_loop_frame [OF lp] by simp
  next
    case False
    with Cons.prems(3) have "(k, r) \<in> set xs" by simp
    moreover have "distinct (map fst xs)" using Cons.prems(2) by simp
    ultimately show ?thesis using Cons.IH [OF lp] Cons.prems(4) by blast
  qed
qed

lemma subset_trans_un: "X \<subseteq> Y \<union> K1 \<Longrightarrow> Y \<subseteq> Z \<union> K0 \<Longrightarrow> X \<subseteq> Z \<union> (K0 \<union> K1)"
  by blast

lemma content_keys_Cons:
  "content_keys (kv # xs) = (if is_content (snd kv) then {fst kv} else {}) \<union> content_keys xs"
  by (auto simp: content_keys_def)

lemma page_step_keys:
  assumes "page_step env res url r a = Inr a'"
  shows "set (acc_missing_title a') \<subseteq> set (acc_missing_title a) \<union> content_keys [(url, r)]
       \<and> set (acc_missing_meta a') \<subseteq> set (acc_missing_meta a) \<union> content_keys [(url, r)]
       \<and> set (acc_missing_h1 a') \<subseteq> set (acc_missing_h1 a) \<union> content_keys [(url, r)]
       \<and> set (acc_thin a') \<subseteq> set (acc_thin a) \<union> content_keys [(url, r)]
       \<and> fst ` set (acc_missing_alt a')
           \<subseteq> fst ` set (acc_missing_alt a) \<union> content_keys [(url, r)]
       \<and> fst ` set (acc_broken a') \<subseteq> fst ` set (acc_broken a) \<union> content_keys [(url, r)]"
proof (cases "is_content r")
  case False
  from page_step_failure [OF False assms] show ?thesis by simp
next
  case True
  from page_step_content [OF True assms] obtain on bl where
    a': "a' = content_step url on bl a" by blast
  have ck: "content_keys [(url, r)] = {url}" using True by (simp add: content_keys_def)
  show ?thesis
    unfolding a' ck content_step_fields
    by (simp add: dom_update subset_insertI2)
qed

lemma page_loop_keys:
  "page_loop env res xs a = Inr a' \<Longrightarrow>
   set (acc_missing_title a') \<subseteq> set (acc_missing_title a) \<union> content_keys xs
   \<and> set (acc_missing_meta a') \<subseteq> set (acc_missing_meta a) \<union> content_keys xs
   \<and> set (acc_missing_h1 a') \<subseteq> set (acc_missing_h1 a) \<union> content_keys xs
   \<and> set (acc_thin a') \<subseteq> set (acc_thin a) \<union> content_keys xs
   \<and> fst ` set (acc_missing_alt a') \<subseteq> fst ` set (acc_missing_alt a) \<union> content_keys xs
   \<and> fst ` set (acc_broken a') \<subseteq> fst ` set (acc_broken a) \<union> content_keys xs"
proof (induction xs arbitrary: a)
  case Nil
  then show ?case by simp
next
  case (Cons kv xs)
  from Cons.prems(1) obtain a1 where
    s: "page_step env res (fst kv) (snd kv) a = Inr a1" and
    lp: "page_loop env res xs a1 = Inr a'"
    by (auto split: sum.splits)
  have c: "content_keys (kv # xs) = content_keys [(fst kv, snd kv)] \<union> content_keys xs"
    by (auto simp: content_keys_def)
  from page_step_keys [OF s] have st:
    "set (acc_missing_title a1) \<subseteq> set (acc_missing_title a) \<union> content_keys [(fst kv, snd kv)]"
    "set (acc_missing_meta a1) \<subseteq> set (acc_missing_meta a) \<union> content_keys [(fst kv, snd kv)]"
    "set (acc_missing_h1 a1) \<subseteq> set (acc_missing_h1 a) \<union> content_keys [(fst kv, snd kv)]"
    "set (acc_thin a1) \<subseteq> set (acc_thin a) \<union> content_keys [(fst kv, snd kv)]"
    "fst ` set (acc_missing_alt a1) \<subseteq> fst ` set (acc_missing_alt a) \<union> content_keys [(fst kv, snd kv)]"
    "fst ` set (acc_broken a1) \<subseteq> fst ` set (acc_broken a) \<union> content_keys [(fst kv, snd kv)]"
    by simp_all
  from Cons.IH [OF lp] have ih:
    "set (acc_missing_title a') \<subseteq> set (acc_missing_title a1) \<union> content_keys xs"
    "set (acc_missing_meta a') \<subseteq> set (acc_missing_meta a1) \<union> content_keys xs"
    "set (acc_missing_h1 a') \<subseteq> set (acc_missing_h1 a1) \<union> content_keys xs"
    "set (acc_thin a') \<subseteq> set (acc_thin a1) \<union> content_keys xs"
    "fst ` set (acc_missing_alt a') \<subseteq> fst ` set (acc_missing_alt a1) \<union> content_keys xs"
    "fst ` set (acc_broken a') \<subseteq> fst ` set (acc_broken a1) \<union> content_keys xs"
    by simp_all
  show ?case
    unfolding c
    using subset_trans_un [OF ih(1) st(1)] subset_trans_un [OF ih(2) st(2)]
      subset_trans_un [OF ih(3) st(3)] subset_trans_un [OF ih(4) st(4)]
      subset_trans_un [OF ih(5) st(5)] subset_trans_un [OF ih(6) st(6)]
    by simp
qed

lemma failure_not_content_key:
  assumes "distinct (map fst xs)" and "(k, r) \<in> set xs" and "\<not> is_content r"
  shows "k \<notin> content_keys xs"
proof
  assume "k \<in> content_keys xs"
  then obtain r' where r': "(k, r') \<in> set xs" "is_content r'"
    by (auto simp: content_keys_def)
  from assms(1) assms(2) r'(1) have "r' = r" by (meson eq_key_imp_eq_value)
  with r'(2) assms(3) show False by simp
qed

subsection \<open>Leaving a failed entry out\<close>

lemma broken_loop_returns:
  "broken_loop env res url ls bl = Inr x \<Longrightarrow> \<exists>y. broken_loop env res' url ls bl' = Inr y"
proof (induction ls arbitrary: bl bl' x)
  case Nil
  then show ?case by simp
next
  case (Cons a rest)
  then show ?case by (auto split: sum.splits)
qed

lemma content_step_same:
  "same_content a b \<Longrightarrow> same_content (content_step url on bl a) (content_step url on bl' b)"
  by (simp add: same_content_def content_step_fields)

lemma page_step_same:
  assumes "page_step env res url r a = Inr a'" and "same_content a b"
  shows "\<exists>b'. page_step env res' url r b = Inr b' \<and> same_content a' b'"
proof (cases "is_content r")
  case False
  from page_step_failure [OF False assms(1)] have sa: "same_content a' a"
    by (simp add: same_content_def)
  have "page_step env res' url r b
        = Inr (b\<lparr>acc_per_page := AList.update url (failure_report r) (acc_per_page b)\<rparr>)"
    using False
    by (auto simp: page_step_def is_content_def failure_report_def split: option.splits)
  with sa assms(2) show ?thesis by (auto simp: same_content_def)
next
  case True
  from page_step_content [OF True assms(1)] obtain on bl where
    on: "e_onpage r = Some on" and
    b: "broken_loop env res url (on_links on) [] = Inr bl" and
    a': "a' = content_step url on bl a"
    by blast
  from broken_loop_returns [OF b, of res' "[]"] obtain bl' where
    b': "broken_loop env res' url (on_links on) [] = Inr bl'" by blast
  have "page_step env res' url r b = Inr (content_step url on bl' b)"
    using True on b' by (simp add: page_step_def is_content_def)
  with content_step_same [OF assms(2), of url on bl bl'] a' show ?thesis by blast
qed

lemma page_loop_same:
  "page_loop env res xs a = Inr a' \<Longrightarrow> same_content a b \<Longrightarrow>
   list_all (\<lambda>kv. fst kv \<noteq> u \<or> \<not> is_content (snd kv)) xs \<Longrightarrow>
   \<exists>b'. page_loop env res' (filter (\<lambda>kv. fst kv \<noteq> u) xs) b = Inr b' \<and> same_content a' b'"
proof (induction xs arbitrary: a b)
  case Nil
  then show ?case by simp
next
  case (Cons kv xs)
  from Cons.prems(1) obtain a1 where
    s: "page_step env res (fst kv) (snd kv) a = Inr a1" and
    lp: "page_loop env res xs a1 = Inr a'"
    by (auto split: sum.splits)
  from Cons.prems(3) have rest: "list_all (\<lambda>kv. fst kv \<noteq> u \<or> \<not> is_content (snd kv)) xs"
    by simp
  show ?case
  proof (cases "fst kv = u")
    case True
    with Cons.prems(3) have "\<not> is_content (snd kv)" by simp
    from page_step_failure [OF this s] Cons.prems(2) have "same_content a1 b"
      by (simp add: same_content_def)
    from Cons.IH [OF lp this rest] True show ?thesis by simp
  next
    case False
    from page_step_same [OF s Cons.prems(2), of res'] obtain b1 where
      sb: "page_step env res' (fst kv) (snd kv) b = Inr b1" and sc: "same_content a1 b1"
      by blast
    from Cons.IH [OF lp sc rest] False sb show ?thesis by simp
  qed
qed

lemma phrase_loop_filter:
  "list_all (\<lambda>kv. fst kv \<noteq> u \<or> e_onpage (snd kv) = None) xs \<Longrightarrow>
   fold phrase_step (filter (\<lambda>kv. fst kv \<noteq> u) xs) c = fold phrase_step xs c"
  by (induction xs arbitrary: c) (auto simp: phrase_step_def)

lemma summarize_same:
  assumes "same_content a b"
  shows "pages_missing_title (summarize res a pc) = pages_missing_title (summarize res' b pc)"
    "pages_missing_meta_description (summarize res a pc)
       = pages_missing_meta_description (summarize res' b pc)"
    "pages_missing_h1 (summarize res a pc) = pages_missing_h1 (summarize res' b pc)"
    "thin_pages (summarize res a pc) = thin_pages (summarize res' b pc)"
    "images_missing_alt (summarize res a pc) = images_missing_alt (summarize res' b pc)"
    "duplicate_titles (summarize res a pc) = duplicate_titles (summarize res' b pc)"
    "duplicate_meta_descriptions (summarize res a pc)
       = duplicate_meta_descriptions (summarize res' b pc)"
    "top_words (summarize res a pc) = top_words (summarize res' b pc)"
    "candidate_phrases (summarize res a pc) = candidate_phrases (summarize res' b pc)"
  using assms by (simp_all add: summarize_def Let_def same_content_def)

text \<open>
  Claim C9. Let an address of the result mapping hold an entry without page record that
  has an error message or a status other than 200. When \<open>analyze\<close> returns, the per-page
  report of that address is only its error message, or only its status; the address is in
  none of the lists of missing titles, missing descriptions, missing H1s and thin pages,
  and has no alt-gap entry; and the analysis of the mapping without that address returns
  with the same missing-field lists, thin pages, alt gaps, duplicate groups, top words and
  candidate phrases.
\<close>

theorem C9_failed_entries:
  assumes an: "analyze env res = Inr s" and di: "distinct (map fst res)"
    and mem: "(url, r) \<in> set res"
    and fail: "e_error r \<noteq> None \<or> e_http r \<noteq> Some 200" and noon: "e_onpage r = None"
  shows "map_of (per_page s) url = Some (failure_report r)
    \<and> url \<notin> set (pages_missing_title s) \<and> url \<notin> set (pages_missing_meta_description s)
    \<and> url \<notin> set (pages_missing_h1 s) \<and> url \<notin> set (thin_pages s)
    \<and> url \<notin> fst ` set (images_missing_alt s)
    \<and> (\<exists>s'. analyze env (filter (\<lambda>kv. fst kv \<noteq> url) res) = Inr s'
          \<and> pages_missing_title s' = pages_missing_title s
          \<and> pages_missing_meta_description s' = pages_missing_meta_description s
          \<and> pages_missing_h1 s' = pages_missing_h1 s
          \<and> thin_pages s' = thin_pages s
          \<and> images_missing_alt s' = images_missing_alt s
          \<and> duplicate_titles s' = duplicate_titles s
          \<and> duplicate_meta_descriptions s' = duplicate_meta_descriptions s
          \<and> top_words s' = top_words s
          \<and> candidate_phrases s' = candidate_phrases s)"
proof -
  let ?res' = "filter (\<lambda>kv. fst kv \<noteq> url) res"
  from an obtain a where
    lp: "page_loop env res res empty_acc = Inr a" and
    s: "s = summarize res a (phrase_loop res)"
    by (auto simp: analyze_def split: sum.splits)
  have nc: "\<not> is_content r" using fail by (auto simp: is_content_def)
  have same_key: "snd kv = r" if "kv \<in> set res" "fst kv = url" for kv
  proof -
    from that have "(url, snd kv) \<in> set res" by (metis prod.collapse)
    from eq_key_imp_eq_value [OF di this mem] show ?thesis .
  qed
  have p1: "map_of (per_page s) url = Some (failure_report r)"
    using page_loop_failure_report [OF lp di mem nc] by (simp add: s summarize_def Let_def)
  have nk: "url \<notin> content_keys res" using di mem nc by (rule failure_not_content_key)
  from page_loop_keys [OF lp] nk have p2:
    "url \<notin> set (pages_missing_title s)" "url \<notin> set (pages_missing_meta_description s)"
    "url \<notin> set (pages_missing_h1 s)" "url \<notin> set (thin_pages s)"
    "url \<notin> fst ` set (images_missing_alt s)"
    by (auto simp: s summarize_def Let_def empty_acc_def)
  have l1: "list_all (\<lambda>kv. fst kv \<noteq> url \<or> \<not> is_content (snd kv)) res"
    using same_key nc by (auto simp: list_all_iff)
  have l2: "list_all (\<lambda>kv. fst kv \<noteq> url \<or> e_onpage (snd kv) = None) res"
    using same_key noon by (auto simp: list_all_iff)
  have sc0: "same_content empty_acc empty_acc" by (simp add: same_content_def)
  from page_loop_same [OF lp sc0 l1, of ?res'] obtain b where
    lb: "page_loop env ?res' ?res' empty_acc = Inr b" and sc: "same_content a b"
    by blast
  have ph: "phrase_loop ?res' = phrase_loop res"
    unfolding phrase_loop_def using l2 by (rule phrase_loop_filter)
  have an': "analyze env ?res' = Inr (summarize ?res' b (phrase_loop res))"
    using lb ph by (simp add: analyze_def)
  note eqs = summarize_same [OF sc, of res "phrase_loop res" ?res']
  have p3: "\<exists>s'. analyze env ?res' = Inr s'
          \<and> pages_missing_title s' = pages_missing_title s
          \<and> pages_missing_meta_description s' = pages_missing_meta_description s
          \<and> pages_missing_h1 s' = pages_missing_h1 s
          \<and> thin_pages s' = thin_pages s
          \<and> images_missing_alt s' = images_missing_alt s
          \<and> duplicate_titles s' = duplicate_titles s
          \<and> duplicate_meta_descriptions s' = duplicate_meta_descriptions s
          \<and> top_words s' = top_words s
          \<and> candidate_phrases s' = candidate_phrases s"
    unfolding s using an' eqs by simp
  from p1 p2 p3 show ?thesis by blast
qed

section \<open>The analysis engine: examples\<close>

lemma audit_returns: "\<not> isl (analyze site_env audit_results)"
  by code_simp

lemma audit_Inr: "analyze site_env audit_results = Inr (projr (analyze site_env audit_results))"
  using audit_returns by (cases "analyze site_env audit_results") auto

lemma audit_distinct: "distinct (map fst audit_results)"
  by (simp add: audit_results_def)

text \<open>Witness of C8: two pages titled \<open>Home\<close>, a third titled \<open>Home\<close> with a trailing
  space.\<close>

theorem C8_witness:
  "map_of (duplicate_titles (projr (analyze site_env audit_results))) ''Home'' = Some 2
   \<and> title_count audit_results ''Home'' = 2
   \<and> map_of (duplicate_titles (projr (analyze site_env audit_results))) ''Home '' = None
   \<and> map_of (duplicate_meta_descriptions (projr (analyze site_env audit_results))) ''About us''
       = Some 3"
proof -
  have t: "title_count audit_results ''Home'' = 2" by code_simp
  have t': "title_count audit_results ''Home '' = 1" by code_simp
  have m: "meta_count audit_results ''About us'' = 3" by code_simp
  from C8_duplicates_exact [OF audit_Inr, of "''Home''" 2 "''About us''" 3] t m
  have a: "map_of (duplicate_titles (projr (analyze site_env audit_results))) ''Home'' = Some 2"
    and b: "map_of (duplicate_meta_descriptions (projr (analyze site_env audit_results)))
              ''About us'' = Some 3"
    by simp_all
  have c: "map_of (duplicate_titles (projr (analyze site_env audit_results))) ''Home '' = None"
  proof (cases "map_of (duplicate_titles (projr (analyze site_env audit_results))) ''Home ''")
    case None
    then show ?thesis .
  next
    case (Some k)
    from C8_duplicates_exact [OF audit_Inr, of "''Home ''" k "''About us''" 3]
    have "map_of (duplicate_titles (projr (analyze site_env audit_results))) ''Home '' = Some k
          \<longleftrightarrow> k = title_count audit_results ''Home '' \<and> 1 < k"
      by (rule conjunct1)
    with Some have "k = title_count audit_results ''Home '' \<and> 1 < k" by blast
    with t' show ?thesis by simp
  qed
  from a t c b show ?thesis by simp
qed

text \<open>Witness of C7: the home page links to \<open>/b\<close>, which answered 404.\<close>

theorem C7_witness:
  "\<exists>bl. map_of (broken_links (projr (analyze site_env audit_results))) ''http://a.com'' = Some bl
        \<and> \<lparr>b_href = ''http://a.com/b'', b_http = Some 404\<rparr> \<in> set bl"
proof -
  have mem: "(''http://a.com'', audit_entry ''http://a.com'' (audit_page ''Home'' [Some ''/b'']))
             \<in> set audit_results"
    by (simp add: audit_results_def)
  have l: "\<lparr>a_href = Some ''/b'', a_text = ''link''\<rparr>
           \<in> set (on_links (audit_page ''Home'' [Some ''/b'']))"
    by (simp add: audit_page_def)
  have n: "norm_url site_env ''http://a.com'' (a_href \<lparr>a_href = Some ''/b'', a_text = ''link''\<rparr>)
           = Inr (Some ''http://a.com/b'')"
    by code_simp
  have sd: "is_same_domain site_env ''http://a.com'' ''http://a.com/b''"
    by (simp add: is_same_domain_def site_env_def)
  have b: "map_of audit_results ''http://a.com/b''
           = Some (http_entry (Some 404) (Some ''http://a.com/b''))"
    by (simp add: audit_results_def)
  show ?thesis
    by (rule C7_broken_link_reported [OF audit_Inr audit_distinct mem _ _ _ l n sd b])
       (simp_all add: audit_entry_def http_entry_def)
qed

text \<open>Witness of C9: the entries of \<open>/b\<close> (status 404) and \<open>/e\<close> (transport error).\<close>

theorem C9_witness:
  "map_of (per_page (projr (analyze site_env audit_results))) ''http://a.com/b''
     = Some (HttpReport (Some 404))
   \<and> map_of (per_page (projr (analyze site_env audit_results))) ''http://a.com/e''
     = Some (ErrorReport ''timed out'')
   \<and> ''http://a.com/b'' \<notin> set (thin_pages (projr (analyze site_env audit_results)))
   \<and> ''http://a.com/e'' \<notin> set (thin_pages (projr (analyze site_env audit_results)))
   \<and> ''http://a.com/c'' \<in> set (thin_pages (projr (analyze site_env audit_results)))"
proof -
  have mb: "(''http://a.com/b'', http_entry (Some 404) (Some ''http://a.com/b''))
            \<in> set audit_results"
    and me: "(''http://a.com/e'', error_entry ''timed out'') \<in> set audit_results"
    by (simp_all add: audit_results_def)
  have fb: "e_error (http_entry (Some 404) (Some ''http://a.com/b'')) \<noteq> None
            \<or> e_http (http_entry (Some 404) (Some ''http://a.com/b'')) \<noteq> Some 200"
    and fe: "e_error (error_entry ''timed out'') \<noteq> None
            \<or> e_http (error_entry ''timed out'') \<noteq> Some 200"
    by (simp_all add: http_entry_def error_entry_def)
  have nb: "e_onpage (http_entry (Some 404) (Some ''http://a.com/b'')) = None"
    and ne: "e_onpage (error_entry ''timed out'') = None"
    by (simp_all add: http_entry_def error_entry_def)
  have thin: "''http://a.com/c'' \<in> set (thin_pages (projr (analyze site_env audit_results)))"
    by code_simp
  from C9_failed_entries [OF audit_Inr audit_distinct mb fb nb]
       C9_failed_entries [OF audit_Inr audit_distinct me fe ne] thin
  show ?thesis
    by (simp add: failure_report_def http_entry_def error_entry_def)
qed

lemma q_not_stopword: "CHR ''q'' # w \<notin> STOPWORDS"
  by (simp add: STOPWORDS_def)

lemma z_not_stopword: "CHR ''z'' # w \<notin> STOPWORDS"
  by (simp add: STOPWORDS_def)

lemma many_words_kept: "filter (\<lambda>w. w \<notin> STOPWORDS) many_words = many_words"
  by (simp add: many_words_def q_not_stopword z_not_stopword)

lemma many_words_counted: "counter_update many_words [] = wordy_counts"
  by code_simp

lemma wordy_loop: "page_loop site_env wordy_results wordy_results empty_acc = Inr wordy_acc"
  by (simp add: wordy_results_def audit_entry_def page_step_def content_step_def Let_def
        wordy_page_def many_words_kept many_words_counted empty_acc_def counter_incr_def
        wordy_acc_def content_report_of_def)

lemma wordy_summary:
  "candidate_phrases (summarize wordy_results wordy_acc (phrase_loop wordy_results))
   = [\<lparr>c_phrase = ''zz'', c_count = 1, c_overlap = 0, c_score = 1\<rparr>]"
  by code_simp

lemma wordy_top_120: "''zz'' \<in> fst ` set (most_common 120 wordy_counts)"
  by code_simp

text \<open>
  Claim C6, at a failing input. The page has 81 different words, so all of them are among
  the 120 most frequent unigrams, the title word \<open>zz\<close> included; the claim gives the phrase
  \<open>zz\<close> the overlap 1 and the score 2. \<open>analyze\<close> gives it the overlap 0 and the score 1:
  \<open>top_words\<close> was cut to 80 entries before \<open>top_words[:120]\<close> is taken.
\<close>

theorem C6_overlap_uses_top_80:
  "''zz'' \<in> fst ` set (most_common 120
       (counter_update (filter (\<lambda>w. w \<notin> STOPWORDS) (on_words wordy_page)) []))
   \<and> map_sum id candidate_phrases (analyze site_env wordy_results)
     = Inr [\<lparr>c_phrase = ''zz'', c_count = 1, c_overlap = 0, c_score = 1\<rparr>]"
proof -
  have "on_words wordy_page = many_words" by (simp add: wordy_page_def)
  then have a: "''zz'' \<in> fst ` set (most_common 120
       (counter_update (filter (\<lambda>w. w \<notin> STOPWORDS) (on_words wordy_page)) []))"
    using wordy_top_120 by (simp add: many_words_kept many_words_counted)
  have "analyze site_env wordy_results
        = Inr (summarize wordy_results wordy_acc (phrase_loop wordy_results))"
    by (simp add: analyze_def wordy_loop)
  then have b: "map_sum id candidate_phrases (analyze site_env wordy_results)
     = Inr [\<lparr>c_phrase = ''zz'', c_count = 1, c_overlap = 0, c_score = 1\<rparr>]"
    by (simp add: wordy_summary)
  from a b show ?thesis by simp
qed

text \<open>
  Claim C4, at a failing input. A link of one space is not empty, so it passes the test
  \<open>not link\<close>; stripped, it is empty, and \<open>urljoin\<close> returns the base: \<open>norm_url\<close> returns the
  base address, not \<open>None\<close>.
\<close>

theorem C4_whitespace_link_resolves_to_base:
  "py_strip '' '' = []
   \<and> norm_url site_env ''http://a.com/x'' (Some '' '') = Inr (Some ''http://a.com/x'')"
  by code_simp
section \<open>The link normaliser: proofs\<close>

subsection \<open>Splitting texts\<close>

lemma takeWhile_all_append: "list_all P a \<Longrightarrow> takeWhile P (a @ b) = a @ takeWhile P b"
  by (induction a) auto

lemma dropWhile_all_append: "list_all P a \<Longrightarrow> dropWhile P (a @ b) = dropWhile P b"
  by (induction a) auto

lemma before_after: "c \<in> set s \<Longrightarrow> text_before c s @ c # text_after c s = s"
proof -
  assume "c \<in> set s"
  then have "dropWhile (\<lambda>x. x \<noteq> c) s \<noteq> []" by (simp add: dropWhile_eq_Nil_conv)
  moreover have "hd (dropWhile (\<lambda>x. x \<noteq> c) s) = c"
    using \<open>c \<in> set s\<close> hd_dropWhile [of "\<lambda>x. x \<noteq> c" s] calculation by auto
  ultimately have "dropWhile (\<lambda>x. x \<noteq> c) s = c # drop 1 (dropWhile (\<lambda>x. x \<noteq> c) s)"
    by (cases "dropWhile (\<lambda>x. x \<noteq> c) s") auto
  then show ?thesis
    unfolding text_before_def text_after_def
    by (metis takeWhile_dropWhile_id)
qed

lemma before_notin: "c \<notin> set (text_before c s)"
  unfolding text_before_def by (auto dest: set_takeWhileD)

lemma before_subset: "set (text_before c s) \<subseteq> set s"
  unfolding text_before_def by (auto dest: set_takeWhileD)

lemma after_subset: "set (text_after c s) \<subseteq> set s"
  unfolding text_after_def by (auto dest: in_set_dropD set_dropWhileD)

lemma before_append: "c \<notin> set a \<Longrightarrow> text_before c (a @ c # b) = a"
  unfolding text_before_def by (induction a) auto

lemma after_append: "c \<notin> set a \<Longrightarrow> text_after c (a @ c # b) = b"
  unfolding text_after_def by (induction a) auto

lemma before_id: "c \<notin> set s \<Longrightarrow> text_before c s = s"
  unfolding text_before_def by (induction s) auto

lemma segments_append: "upto_last_slash y @ last_segment y = y"
proof -
  have "rev y = takeWhile (\<lambda>c. c \<noteq> CHR ''/'') (rev y) @ dropWhile (\<lambda>c. c \<noteq> CHR ''/'') (rev y)"
    by simp
  then have "y = rev (dropWhile (\<lambda>c. c \<noteq> CHR ''/'') (rev y)) @ last_segment y"
    unfolding last_segment_def by (metis rev_append rev_rev_ident)
  then obtain h where h: "y = h @ last_segment y" ..
  then have "upto_last_slash y = h"
    unfolding upto_last_slash_def by (metis append_eq_conv_conj length_append add_diff_cancel_right')
  with h show ?thesis by simp
qed

lemma last_segment_no_slash: "CHR ''/'' \<notin> set (last_segment y)"
  unfolding last_segment_def by (auto dest: set_takeWhileD)

lemma last_segment_append:
  assumes "CHR ''/'' \<notin> set t" and "h = [] \<or> last h = CHR ''/''"
  shows "last_segment (h @ t) = t" and "upto_last_slash (h @ t) = h"
proof -
  have "takeWhile (\<lambda>c. c \<noteq> CHR ''/'') (rev h) = []"
    using assms(2) by (cases h rule: rev_cases) auto
  moreover have "list_all (\<lambda>c. c \<noteq> CHR ''/'') (rev t)"
    using assms(1) by (auto simp: list_all_iff)
  ultimately have "takeWhile (\<lambda>c. c \<noteq> CHR ''/'') (rev t @ rev h) = rev t"
    by (simp add: takeWhile_all_append)
  then show s: "last_segment (h @ t) = t" by (simp add: last_segment_def)
  show "upto_last_slash (h @ t) = h" by (simp add: upto_last_slash_def s)
qed

lemma upto_last_slash_end: "upto_last_slash y = [] \<or> last (upto_last_slash y) = CHR ''/''"
proof -
  have y: "rev y = takeWhile (\<lambda>c. c \<noteq> CHR ''/'') (rev y) @ dropWhile (\<lambda>c. c \<noteq> CHR ''/'') (rev y)"
    by simp
  let ?d = "dropWhile (\<lambda>c. c \<noteq> CHR ''/'') (rev y)"
  have "y = rev ?d @ last_segment y"
    unfolding last_segment_def by (metis y rev_append rev_rev_ident)
  then have u: "upto_last_slash y = rev ?d"
    using segments_append [of y] by (metis append_same_eq)
  show ?thesis
  proof (cases ?d)
    case Nil
    then show ?thesis using u by simp
  next
    case (Cons c cs)
    then have "c = CHR ''/''" using hd_dropWhile [of "\<lambda>c. c \<noteq> CHR ''/''" "rev y"] by auto
    then show ?thesis using u Cons by simp
  qed
qed

lemma upto_last_slash_nonempty: "CHR ''/'' \<in> set y \<Longrightarrow> upto_last_slash y \<noteq> []"
  using segments_append [of y] last_segment_no_slash [of y] by (metis append_Nil)

lemma splitparams_eq:
  assumes "CHR '';'' \<in> set y"
  shows "splitparams y =
     (if CHR '';'' \<in> set (last_segment y)
      then (upto_last_slash y @ text_before (CHR '';'') (last_segment y),
            text_after (CHR '';'') (last_segment y))
      else (y, []))"
proof (cases "CHR ''/'' \<in> set y")
  case True
  then show ?thesis
    by (simp add: splitparams_def Let_def last_segment_def upto_last_slash_def)
next
  case False
  then have "last_segment y = y"
    using last_segment_append(1) [of y "[]"] by simp
  moreover from this have "upto_last_slash y = []" by (simp add: upto_last_slash_def)
  ultimately show ?thesis using False assms by (simp add: splitparams_def)
qed

lemma reparam_cases:
  "reparam y = y
   \<or> (CHR '';'' \<in> set (last_segment y)
      \<and> reparam y = upto_last_slash y @ text_before (CHR '';'') (last_segment y))"
proof (cases "CHR '';'' \<in> set y")
  case False
  then show ?thesis by (simp add: reparam_def)
next
  case True
  show ?thesis
  proof (cases "CHR '';'' \<in> set (last_segment y)")
    case False
    then show ?thesis using True by (simp add: reparam_def splitparams_eq)
  next
    case seg: True
    show ?thesis
    proof (cases "text_after (CHR '';'') (last_segment y) = []")
      case True
      then show ?thesis using \<open>CHR '';'' \<in> set y\<close> seg by (simp add: reparam_def splitparams_eq)
    next
      case False
      have "reparam y = upto_last_slash y @ text_before (CHR '';'') (last_segment y)
                        @ CHR '';'' # text_after (CHR '';'') (last_segment y)"
        using \<open>CHR '';'' \<in> set y\<close> seg False by (simp add: reparam_def splitparams_eq)
      also have "\<dots> = upto_last_slash y @ last_segment y"
        using before_after [OF seg] by simp
      finally show ?thesis by (simp add: segments_append)
    qed
  qed
qed

lemma reparam_idem: "reparam (reparam y) = reparam y"
proof -
  from reparam_cases [of y] show ?thesis
  proof
    assume "reparam y = y"
    then show ?thesis by simp
  next
    assume a: "CHR '';'' \<in> set (last_segment y)
      \<and> reparam y = upto_last_slash y @ text_before (CHR '';'') (last_segment y)"
    let ?t = "text_before (CHR '';'') (last_segment y)"
    let ?z = "upto_last_slash y @ ?t"
    have t: "CHR ''/'' \<notin> set ?t" "CHR '';'' \<notin> set ?t"
      using last_segment_no_slash [of y] before_subset [of "CHR '';''" "last_segment y"]
        before_notin [of "CHR '';''" "last_segment y"] by auto
    have seg: "last_segment ?z = ?t"
      using last_segment_append(1) [OF t(1) upto_last_slash_end] .
    have "reparam ?z = ?z"
      using reparam_cases [of ?z] t(2) by (auto simp: seg)
    with a show ?thesis by simp
  qed
qed

lemma reparam_subset: "set (reparam y) \<subseteq> set y"
proof -
  have "set (upto_last_slash y @ text_before (CHR '';'') (last_segment y)) \<subseteq> set y"
    using segments_append [of y] before_subset [of "CHR '';''" "last_segment y"]
    by (metis Un_mono set_append subset_refl)
  with reparam_cases [of y] show ?thesis by auto
qed

lemma reparam_slash:
  assumes "y = [] \<or> hd y = CHR ''/''"
  shows "reparam y = [] \<or> hd (reparam y) = CHR ''/''"
proof -
  from reparam_cases [of y] show ?thesis
  proof
    assume "reparam y = y"
    with assms show ?thesis by simp
  next
    assume a: "CHR '';'' \<in> set (last_segment y)
      \<and> reparam y = upto_last_slash y @ text_before (CHR '';'') (last_segment y)"
    then have "y \<noteq> []" using segments_append [of y] by auto
    with assms have h: "hd y = CHR ''/''" by simp
    then have "CHR ''/'' \<in> set y" using \<open>y \<noteq> []\<close> by (metis list.set_sel(1))
    then have ne: "upto_last_slash y \<noteq> []" by (rule upto_last_slash_nonempty)
    then have "hd (upto_last_slash y) = hd y"
      using segments_append [of y] by (metis hd_append2)
    with a ne h show ?thesis by simp
  qed
qed

subsection \<open>The tail of \<open>urlsplit\<close>\<close>

lemma clean_subset: "clean s \<Longrightarrow> set t \<subseteq> set s \<Longrightarrow> clean t"
  by (auto simp: clean_def)

lemma clean_append: "clean (a @ b) = (clean a \<and> clean b)"
  by (auto simp: clean_def)

lemma clean_filter: "clean s \<Longrightarrow> filter (\<lambda>c. c \<notin> set unsafe_url_bytes) s = s"
  by (auto simp: clean_def filter_id_conv)

lemma split_rest_facts:
  assumes "split_rest env s n r = Inr sr"
  shows "sr_scheme sr = s" and "sr_netloc sr = n" and "checknetloc env n"
    and "set (sr_path sr) \<subseteq> set r" and "set (sr_query sr) \<subseteq> set r"
    and "CHR ''#'' \<notin> set (sr_path sr)" and "CHR ''?'' \<notin> set (sr_path sr)"
    and "CHR ''#'' \<notin> set (sr_query sr)"
proof -
  define u1 where "u1 = (if CHR ''#'' \<in> set r then text_before (CHR ''#'') r else r)"
  define u2 where "u2 = (if CHR ''?'' \<in> set u1 then text_before (CHR ''?'') u1 else u1)"
  define q where "q = (if CHR ''?'' \<in> set u1 then text_after (CHR ''?'') u1 else [])"
  have ck: "checknetloc env n"
    using assms by (auto simp: split_rest_def Let_def split: if_splits)
  have sr: "sr_scheme sr = s \<and> sr_netloc sr = n \<and> sr_path sr = u2 \<and> sr_query sr = q"
    using assms by (auto simp: split_rest_def Let_def u1_def u2_def q_def split: if_splits)
  have u1: "set u1 \<subseteq> set r" "CHR ''#'' \<notin> set u1"
    using before_subset [of "CHR ''#''" r] before_notin [of "CHR ''#''" r]
    by (auto simp: u1_def)
  have u2: "set u2 \<subseteq> set u1" "CHR ''?'' \<notin> set u2"
    using before_subset [of "CHR ''?''" u1] before_notin [of "CHR ''?''" u1]
    by (auto simp: u2_def)
  have q: "set q \<subseteq> set u1"
    using after_subset [of "CHR ''?''" u1] by (auto simp: q_def)
  show "sr_scheme sr = s" "sr_netloc sr = n" using sr by simp_all
  show "checknetloc env n" by (rule ck)
  show "set (sr_path sr) \<subseteq> set r" using sr u1 u2 by auto
  show "set (sr_query sr) \<subseteq> set r" using sr u1 q by auto
  show "CHR ''#'' \<notin> set (sr_path sr)" using sr u1 u2 by auto
  show "CHR ''?'' \<notin> set (sr_path sr)" using sr u2 by auto
  show "CHR ''#'' \<notin> set (sr_query sr)" using sr u1 q by auto
qed

lemma split_rest_path_slash:
  assumes "split_rest env s n r = Inr sr" and "delimited r"
  shows "sr_path sr = [] \<or> hd (sr_path sr) = CHR ''/''"
proof (cases r)
  case Nil
  then show ?thesis using assms(1) by (auto simp: split_rest_def Let_def split: if_splits)
next
  case (Cons c cs)
  then have "c = CHR ''/'' \<or> c = CHR ''?'' \<or> c = CHR ''#''"
    using assms(2) by (simp add: delimited_def)
  then show ?thesis
    using assms(1) Cons
    by (auto simp: split_rest_def Let_def text_before_def split: if_splits)
qed

lemma split_rest_build:
  assumes "CHR ''#'' \<notin> set y" and "CHR ''?'' \<notin> set y" and "CHR ''#'' \<notin> set q"
    and "checknetloc env n"
  shows "split_rest env s n (y @ (if q = [] then [] else CHR ''?'' # q))
         = Inr \<lparr>sr_scheme = s, sr_netloc = n, sr_path = y, sr_query = q, sr_fragment = []\<rparr>"
proof (cases "q = []")
  case True
  then show ?thesis using assms by (simp add: split_rest_def)
next
  case False
  then show ?thesis
    using assms by (simp add: split_rest_def before_append after_append)
qed

subsection \<open>What \<open>urlsplit\<close> returns\<close>

lemma urlsplit_rest:
  assumes "urlsplit env j sch = Inr sr"
  obtains n r where "split_rest env (sr_scheme sr) n r = Inr sr"
    and "clean n" and "clean r" and "set n \<inter> set ''/?#'' = {}"
    and "brackets_ok env n" and "n = [] \<or> delimited r"
proof -
  define url1 where
    "url1 = filter (\<lambda>c. c \<notin> set unsafe_url_bytes) (lstrip_with c0_control_or_space j)"
  define url where "url = (if has_scheme url1 then text_after (CHR '':'') url1 else url1)"
  define sc where "sc = (if has_scheme url1 then py_lower (text_before (CHR '':'') url1)
      else filter (\<lambda>c. c \<notin> set unsafe_url_bytes) (strip_with c0_control_or_space sch))"
  define n where "n = fst (splitnetloc url 2)"
  define r where "r = snd (splitnetloc url 2)"
  have eq: "urlsplit env j sch =
      (if take 2 url = ''//''
       then (if CHR ''['' \<in> set n \<and> \<not> CHR '']'' \<in> set n then Inl ValueError
             else if CHR '']'' \<in> set n \<and> \<not> CHR ''['' \<in> set n then Inl ValueError
             else if CHR ''['' \<in> set n \<and> CHR '']'' \<in> set n \<and>
                 \<not> check_bracketed_host env
                     (text_before (CHR '']'') (text_after (CHR ''['') n))
             then Inl ValueError
             else split_rest env sc n r)
       else split_rest env sc [] url)"
    unfolding urlsplit_def Let_def n_def r_def url_def sc_def url1_def by (rule refl)
  have c1: "clean url1" by (auto simp: url1_def clean_def)
  have "set url \<subseteq> set url1" using after_subset [of "CHR '':''" url1] by (auto simp: url_def)
  with c1 have cu: "clean url" by (rule clean_subset)
  show ?thesis
  proof (cases "take 2 url = ''//''")
    case False
    then have e: "split_rest env sc [] url = Inr sr"
      using assms unfolding eq by simp
    then have "sr_scheme sr = sc" by (rule split_rest_facts(1))
    with e have "split_rest env (sr_scheme sr) [] url = Inr sr" by simp
    then show ?thesis
      using cu by (intro that [of "[]" url]) (simp_all add: clean_def brackets_ok_def)
  next
    case True
    have b: "brackets_ok env n"
      using assms True unfolding eq brackets_ok_def by (simp split: if_splits)
    have e: "split_rest env sc n r = Inr sr"
      using assms True unfolding eq by (simp split: if_splits)
    then have "sr_scheme sr = sc" by (rule split_rest_facts(1))
    with e have e': "split_rest env (sr_scheme sr) n r = Inr sr" by simp
    have n: "n = takeWhile (\<lambda>c. c \<notin> set ''/?#'') (drop 2 url)"
      and r: "r = dropWhile (\<lambda>c. c \<notin> set ''/?#'') (drop 2 url)"
      by (simp_all add: n_def r_def splitnetloc_def)
    have "set n \<subseteq> set url" unfolding n by (auto dest: set_takeWhileD in_set_dropD)
    with cu have cn: "clean n" by (rule clean_subset)
    have "set r \<subseteq> set url" unfolding r by (auto dest: set_dropWhileD in_set_dropD)
    with cu have cr: "clean r" by (rule clean_subset)
    have dn: "set n \<inter> set ''/?#'' = {}" unfolding n by (auto dest: set_takeWhileD)
    have dr: "delimited r"
    proof (cases r)
      case Nil
      then show ?thesis by (simp add: delimited_def)
    next
      case (Cons c cs)
      then have "\<not> (c \<notin> set ''/?#'')"
        using hd_dropWhile [of "\<lambda>c. c \<notin> set ''/?#''" "drop 2 url"] unfolding r
        by (metis list.sel(1) list.distinct(1))
      then show ?thesis using Cons by (simp add: delimited_def)
    qed
    show ?thesis using e' cn cr dn b dr by (intro that [of n r]) simp_all
  qed
qed

lemma urlsplit_facts:
  assumes "urlsplit env j sch = Inr sr"
  shows "clean (sr_netloc sr)" and "set (sr_netloc sr) \<inter> set ''/?#'' = {}"
    and "brackets_ok env (sr_netloc sr)" and "checknetloc env (sr_netloc sr)"
    and "clean (sr_path sr)" and "clean (sr_query sr)"
    and "CHR ''#'' \<notin> set (sr_path sr)" and "CHR ''?'' \<notin> set (sr_path sr)"
    and "CHR ''#'' \<notin> set (sr_query sr)"
    and "sr_netloc sr \<noteq> [] \<Longrightarrow> sr_path sr = [] \<or> hd (sr_path sr) = CHR ''/''"
proof -
  from assms obtain n r where e: "split_rest env (sr_scheme sr) n r = Inr sr"
    and cn: "clean n" and cr: "clean r" and dn: "set n \<inter> set ''/?#'' = {}"
    and b: "brackets_ok env n" and dr: "n = [] \<or> delimited r"
    by (rule urlsplit_rest)
  have n: "sr_netloc sr = n" using e by (rule split_rest_facts(2))
  show "clean (sr_netloc sr)" using n cn by simp
  show "set (sr_netloc sr) \<inter> set ''/?#'' = {}" using n dn by simp
  show "brackets_ok env (sr_netloc sr)" using n b by simp
  show "checknetloc env (sr_netloc sr)" using n split_rest_facts(3) [OF e] by simp
  show "clean (sr_path sr)" using cr split_rest_facts(4) [OF e] by (rule clean_subset)
  show "clean (sr_query sr)" using cr split_rest_facts(5) [OF e] by (rule clean_subset)
  show "CHR ''#'' \<notin> set (sr_path sr)" using e by (rule split_rest_facts(6))
  show "CHR ''?'' \<notin> set (sr_path sr)" using e by (rule split_rest_facts(7))
  show "CHR ''#'' \<notin> set (sr_query sr)" using e by (rule split_rest_facts(8))
  show "sr_path sr = [] \<or> hd (sr_path sr) = CHR ''/''" if "sr_netloc sr \<noteq> []"
    using that n dr split_rest_path_slash [OF e] by auto
qed

subsection \<open>Parsing a text of the form scheme, network location, rest\<close>

lemma web_scheme_facts:
  assumes "s = ''http'' \<or> s = ''https''"
  shows "py_lower s = s" and "CHR '':'' \<notin> set s" and "s \<noteq> []" and "hd s = CHR ''h''"
    and "list_all (\<lambda>c. c \<in> set scheme_chars) s" and "clean s"
    and "s \<in> set uses_params" and "s \<in> set uses_netloc" and "s \<in> set uses_relative"
  using assms
  by (auto simp: py_lower_def lower_char_def upper_chars_def lower_chars_def scheme_chars_def
        clean_def unsafe_url_bytes_def uses_params_def uses_netloc_def uses_relative_def)

lemma urlsplit_text:
  assumes s: "s = ''http'' \<or> s = ''https''"
    and cn: "clean n" and dn: "set n \<inter> set ''/?#'' = {}"
    and cr: "clean r" and dr: "delimited r" and b: "brackets_ok env n"
  shows "urlsplit env (s @ ''://'' @ n @ r) sch = split_rest env s n r"
proof -
  let ?u = "s @ ''://'' @ n @ r"
  have hd: "?u = CHR ''h'' # tl ?u" using s by auto
  have "\<not> c0_control_or_space (CHR ''h'')" by (simp add: c0_control_or_space_def)
  then have l: "lstrip_with c0_control_or_space ?u = ?u"
    unfolding lstrip_with_def by (subst hd, subst (2) hd) simp
  have "clean ?u"
    using web_scheme_facts(6) [OF s] cn cr
    by (simp add: clean_append) (simp add: clean_def unsafe_url_bytes_def)
  then have f: "filter (\<lambda>c. c \<notin> set unsafe_url_bytes) ?u = ?u"
    by (rule clean_filter)
  have u: "?u = s @ CHR '':'' # (''//'' @ n @ r)" by simp
  have tb: "text_before (CHR '':'') ?u = s"
    unfolding u using web_scheme_facts(2) [OF s] by (rule before_append)
  have ta: "text_after (CHR '':'') ?u = ''//'' @ n @ r"
    unfolding u using web_scheme_facts(2) [OF s] by (rule after_append)
  have "is_ascii_letter (hd ?u)"
    by (subst hd) (simp add: is_ascii_letter_def ascii_letters_def)
  then have hs: "has_scheme ?u"
    unfolding has_scheme_def tb using web_scheme_facts(3,5) [OF s] by simp
  have an: "list_all (\<lambda>c. c \<notin> set ''/?#'') n" using dn by (auto simp: list_all_iff)
  have tr: "takeWhile (\<lambda>c. c \<notin> set ''/?#'') r = []"
    using dr by (cases r) (auto simp: delimited_def)
  have dw: "dropWhile (\<lambda>c. c \<notin> set ''/?#'') r = r"
    using dr by (cases r) (auto simp: delimited_def)
  have d2: "drop 2 (''//'' @ n @ r) = n @ r" by simp
  have sn: "splitnetloc (''//'' @ n @ r) 2 = (n, r)"
    unfolding splitnetloc_def d2 takeWhile_all_append [OF an] dropWhile_all_append [OF an]
      tr dw by simp
  have t2: "take 2 (''//'' @ n @ r) = ''//''" by simp
  show ?thesis
    unfolding urlsplit_def l f Let_def
    using hs b
    by (simp only: if_True tb ta web_scheme_facts(1) [OF s] t2 sn fst_conv snd_conv)
       (auto simp: brackets_ok_def split: if_splits)
qed

subsection \<open>The text that \<open>norm_url\<close> returns\<close>

lemma urlunsplit_web:
  assumes "s = ''http'' \<or> s = ''https''"
  shows "urlunsplit s n y q [] = web_text s n y q"
  using web_scheme_facts(3,8) [OF assms]
  by (simp add: urlunsplit_def web_text_def slashed_def Let_def)

lemma urlparse_split:
  assumes "urlparse env j sch = Inr p"
  shows "\<exists>sr. urlsplit env j sch = Inr sr
    \<and> pr_scheme p = sr_scheme sr \<and> pr_netloc p = sr_netloc sr
    \<and> pr_query p = sr_query sr \<and> pr_fragment p = sr_fragment sr
    \<and> (sr_scheme sr \<notin> set uses_params
       \<or> (if pr_params p = [] then pr_path p else pr_path p @ '';'' @ pr_params p)
         = reparam (sr_path sr))"
proof (cases "urlsplit env j sch")
  case (Inl e)
  then show ?thesis using assms by (simp add: urlparse_def)
next
  case (Inr sr)
  then have p: "p = \<lparr>pr_scheme = sr_scheme sr, pr_netloc = sr_netloc sr,
      pr_path = (if sr_scheme sr \<in> set uses_params \<and> CHR '';'' \<in> set (sr_path sr)
                 then fst (splitparams (sr_path sr)) else sr_path sr),
      pr_params = (if sr_scheme sr \<in> set uses_params \<and> CHR '';'' \<in> set (sr_path sr)
                   then snd (splitparams (sr_path sr)) else []),
      pr_query = sr_query sr, pr_fragment = sr_fragment sr\<rparr>"
    using assms by (simp add: urlparse_def Let_def)
  have "pr_scheme p = sr_scheme sr" "pr_netloc p = sr_netloc sr"
      "pr_query p = sr_query sr" "pr_fragment p = sr_fragment sr"
    by (simp_all add: p)
  moreover have "sr_scheme sr \<notin> set uses_params
       \<or> (if pr_params p = [] then pr_path p else pr_path p @ '';'' @ pr_params p)
         = reparam (sr_path sr)"
    by (simp add: p reparam_def)
  ultimately show ?thesis using Inr by blast
qed

lemma urlunparse_web:
  assumes "urlparse env j sch = Inr p" and "urlsplit env j sch = Inr sr"
    and "sr_scheme sr = ''http'' \<or> sr_scheme sr = ''https''"
  shows "urlunparse (p\<lparr>pr_fragment := []\<rparr>)
         = web_text (sr_scheme sr) (sr_netloc sr) (reparam (sr_path sr)) (sr_query sr)"
proof -
  from urlparse_split [OF assms(1)] obtain sr' where sr': "urlsplit env j sch = Inr sr'"
    and f: "pr_scheme p = sr_scheme sr'" "pr_netloc p = sr_netloc sr'"
      "pr_query p = sr_query sr'"
    and pp: "sr_scheme sr' \<notin> set uses_params
       \<or> (if pr_params p = [] then pr_path p else pr_path p @ '';'' @ pr_params p)
         = reparam (sr_path sr')"
    by blast
  from sr' assms(2) have eq: "sr' = sr" by simp
  define y where
    "y = (if pr_params p = [] then pr_path p else pr_path p @ '';'' @ pr_params p)"
  have y: "y = reparam (sr_path sr)"
    using pp web_scheme_facts(7) [OF assms(3)] unfolding eq y_def by simp
  have "urlunparse (p\<lparr>pr_fragment := []\<rparr>)
      = urlunsplit (pr_scheme p) (pr_netloc p) y (pr_query p) []"
    by (simp add: urlunparse_def y_def)
  then have "urlunparse (p\<lparr>pr_fragment := []\<rparr>)
      = urlunsplit (sr_scheme sr) (sr_netloc sr) (reparam (sr_path sr)) (sr_query sr) []"
    using f y unfolding eq by simp
  then show ?thesis using urlunsplit_web [OF assms(3)] by simp
qed

subsection \<open>Parsing that text again\<close>

lemma slashed_slash: "slashed y = [] \<or> hd (slashed y) = CHR ''/''"
  by (cases y) (auto simp: slashed_def)

lemma slashed_id: "y = [] \<or> hd y = CHR ''/'' \<Longrightarrow> slashed y = y"
  by (cases y) (auto simp: slashed_def)

lemma slashed_set: "set (slashed y) \<subseteq> insert (CHR ''/'') (set y)"
  by (auto simp: slashed_def)

lemma urlsplit_web_text:
  assumes s: "s = ''http'' \<or> s = ''https''"
    and n: "clean n" "set n \<inter> set ''/?#'' = {}" "brackets_ok env n" "checknetloc env n"
    and y: "clean y" "CHR ''#'' \<notin> set y" "CHR ''?'' \<notin> set y"
    and q: "clean q" "CHR ''#'' \<notin> set q"
  shows "urlsplit env (web_text s n y q) sch
         = Inr \<lparr>sr_scheme = s, sr_netloc = n, sr_path = slashed y, sr_query = q,
                sr_fragment = []\<rparr>"
proof -
  let ?r = "slashed y @ (if q = [] then [] else CHR ''?'' # q)"
  have cs: "clean (slashed y)"
    using y(1) slashed_set [of y] by (auto simp: clean_def unsafe_url_bytes_def)
  have ys: "CHR ''#'' \<notin> set (slashed y)" "CHR ''?'' \<notin> set (slashed y)"
    using y(2,3) slashed_set [of y] by auto
  have cr: "clean ?r"
    using cs q(1) by (auto simp: clean_def unsafe_url_bytes_def)
  have dr: "delimited ?r"
    using slashed_slash [of y] by (cases "slashed y") (auto simp: delimited_def)
  have "urlsplit env (s @ ''://'' @ n @ ?r) sch = split_rest env s n ?r"
    using s n(1,2) cr dr n(3) by (rule urlsplit_text)
  also have "\<dots> = Inr \<lparr>sr_scheme = s, sr_netloc = n, sr_path = slashed y, sr_query = q,
                sr_fragment = []\<rparr>"
    using ys q(2) n(4) by (rule split_rest_build)
  finally show ?thesis by (simp add: web_text_def)
qed

text \<open>The address that \<open>norm_url\<close> returns, parsed again: the network location is the same,
  and when it is not empty the address is written back unchanged.\<close>

lemma reparse:
  assumes p: "urlparse env j sch0 = Inr p"
    and s: "pr_scheme p = ''http'' \<or> pr_scheme p = ''https''"
    and u: "u = urlunparse (p\<lparr>pr_fragment := []\<rparr>)"
  shows "\<exists>pu. urlparse env u sch = Inr pu
    \<and> pr_scheme pu = pr_scheme p \<and> pr_netloc pu = pr_netloc p
    \<and> (pr_netloc p = [] \<or> urlunparse (pu\<lparr>pr_fragment := []\<rparr>) = u)
    \<and> (pr_netloc p = [] \<or> urlunparse pu = u)"
proof -
  from urlparse_split [OF p] obtain sr where sr: "urlsplit env j sch0 = Inr sr"
    and f: "pr_scheme p = sr_scheme sr" "pr_netloc p = sr_netloc sr"
    by blast
  define sc where "sc = sr_scheme sr"
  define n where "n = sr_netloc sr"
  define y where "y = reparam (sr_path sr)"
  define q where "q = sr_query sr"
  have s': "sc = ''http'' \<or> sc = ''https''" using s f by (simp add: sc_def)
  have s'': "sr_scheme sr = ''http'' \<or> sr_scheme sr = ''https''" using s f by simp
  have uw: "u = web_text sc n y q"
    unfolding u sc_def n_def y_def q_def using p sr s'' by (rule urlunparse_web)
  have nf: "clean n" "set n \<inter> set ''/?#'' = {}" "brackets_ok env n" "checknetloc env n"
    unfolding n_def using urlsplit_facts(1-4) [OF sr] by simp_all
  have yf: "clean y" "CHR ''#'' \<notin> set y" "CHR ''?'' \<notin> set y"
    unfolding y_def
    using urlsplit_facts(5,7,8) [OF sr] reparam_subset [of "sr_path sr"]
    by (auto intro: clean_subset)
  have qf: "clean q" "CHR ''#'' \<notin> set q"
    unfolding q_def using urlsplit_facts(6,9) [OF sr] by simp_all
  define su where "su = \<lparr>sr_scheme = sc, sr_netloc = n, sr_path = slashed y, sr_query = q,
                sr_fragment = []\<rparr>"
  have su: "urlsplit env u sch = Inr su"
    unfolding uw su_def using s' nf yf qf by (rule urlsplit_web_text)
  then obtain pu where pu: "urlparse env u sch = Inr pu"
    by (simp add: urlparse_def Let_def)
  from urlparse_split [OF pu] obtain su' where su': "urlsplit env u sch = Inr su'"
    and g: "pr_scheme pu = sr_scheme su'" "pr_netloc pu = sr_netloc su'"
      "pr_fragment pu = sr_fragment su'"
    by blast
  from su su' have e: "su' = su" by simp
  have g': "pr_scheme pu = sc" "pr_netloc pu = n" "pr_fragment pu = []"
    using g unfolding e by (simp_all add: su_def)
  have s3: "sr_scheme su = ''http'' \<or> sr_scheme su = ''https''" using s' by (simp add: su_def)
  have w: "urlunparse (pu\<lparr>pr_fragment := []\<rparr>) = web_text sc n (reparam (slashed y)) q"
    using urlunparse_web [OF pu su s3] by (simp add: su_def)
  have same: "pu\<lparr>pr_fragment := []\<rparr> = pu" using g'(3) by simp
  have unchanged: "urlunparse (pu\<lparr>pr_fragment := []\<rparr>) = u" if "n \<noteq> []"
  proof -
    have "sr_path sr = [] \<or> hd (sr_path sr) = CHR ''/''"
      using urlsplit_facts(10) [OF sr] that by (simp add: n_def)
    then have "y = [] \<or> hd y = CHR ''/''" unfolding y_def by (rule reparam_slash)
    then have "slashed y = y" by (rule slashed_id)
    moreover have "reparam y = y" unfolding y_def by (rule reparam_idem)
    ultimately show ?thesis using w uw by simp
  qed
  have "pr_scheme pu = pr_scheme p" using g'(1) f(1) by (simp add: sc_def)
  moreover have "pr_netloc pu = pr_netloc p" using g'(2) f(2) by (simp add: n_def)
  moreover have k: "pr_netloc p = [] \<or> urlunparse (pu\<lparr>pr_fragment := []\<rparr>) = u"
    using unchanged f(2) by (auto simp: n_def)
  moreover from k have "pr_netloc p = [] \<or> urlunparse pu = u" using same by simp
  ultimately show ?thesis using pu by blast
qed

lemma web_text_head:
  assumes "s = ''http'' \<or> s = ''https''"
  shows "\<exists>t. web_text s n y q = CHR ''h'' # CHR ''t'' # t"
  using assms by (auto simp: web_text_def)

subsection \<open>The two calls of \<open>norm_url\<close>\<close>

lemma norm_url_SomeE:
  assumes "norm_url env base link0 = Inr (Some u)"
  obtains l joined parsed where "link0 = Some l"
    and "urljoin env base (py_strip l) = Inr joined"
    and "urlparse env joined [] = Inr parsed"
    and "pr_scheme parsed = ''http'' \<or> pr_scheme parsed = ''https''"
    and "u = urlunparse (parsed\<lparr>pr_fragment := []\<rparr>)"
  using assms
  by (auto simp: norm_url_def Let_def split: option.splits if_splits sum.splits)

lemma urljoin_base:
  assumes "urljoin env base link = Inr joined" and "urlparse env joined [] = Inr parsed"
  shows "base = [] \<or> (\<exists>b. urlparse env base [] = Inr b)"
  using assms by (auto simp: urljoin_def split: if_splits sum.splits)

lemma urljoin_parsed_netloc:
  assumes "pr_scheme u \<in> set uses_netloc \<and> pr_netloc u \<noteq> []"
  shows "urljoin_parsed b u url =
     (if pr_scheme u \<noteq> pr_scheme b then url
      else if pr_scheme u \<notin> set uses_relative then url
      else urlunparse u)"
  unfolding urljoin_parsed_def by (subst if_P [OF assms]) (rule refl)

lemma urljoin_absolute:
  assumes b: "base = [] \<or> (\<exists>b. urlparse env base [] = Inr b)"
    and u: "u \<noteq> []"
    and pu: "\<And>sch. \<exists>pu. urlparse env u sch = Inr pu \<and> pr_scheme pu = s \<and> pr_netloc pu \<noteq> []
               \<and> urlunparse pu = u"
    and s: "s = ''http'' \<or> s = ''https''"
  shows "urljoin env base u = Inr u"
proof (cases "base = []")
  case True
  then show ?thesis by (simp add: urljoin_def)
next
  case False
  with b obtain bp where bp: "urlparse env base [] = Inr bp" by auto
  from pu [of "pr_scheme bp"] obtain p where p: "urlparse env u (pr_scheme bp) = Inr p"
    and f: "pr_scheme p = s" "pr_netloc p \<noteq> []" "urlunparse p = u" by auto
  have a: "pr_scheme p \<in> set uses_netloc \<and> pr_netloc p \<noteq> []"
    using web_scheme_facts(8) [OF s] f(1,2) by simp
  have "urljoin_parsed bp p u = u"
    unfolding urljoin_parsed_netloc [OF a] using f(3) by simp
  then show ?thesis using False u bp p by (simp add: urljoin_def)
qed

text \<open>
  Claim C10, amended. When \<open>norm_url(base, link)\<close> returns an address \<open>u\<close> that
  \<open>str.strip\<close> leaves unchanged and whose network location is not empty, then
  \<open>norm_url(base, u)\<close> returns \<open>u\<close>.
\<close>

theorem C10_idempotent_on_hosted_outputs:
  assumes "norm_url env base link0 = Inr (Some u)"
    and "py_strip u = u"
    and "netloc_of env u \<noteq> []"
  shows "norm_url env base (Some u) = Inr (Some u)"
proof -
  from assms(1) obtain l joined parsed where
    j: "urljoin env base (py_strip l) = Inr joined"
    and p: "urlparse env joined [] = Inr parsed"
    and s: "pr_scheme parsed = ''http'' \<or> pr_scheme parsed = ''https''"
    and u: "u = urlunparse (parsed\<lparr>pr_fragment := []\<rparr>)"
    by (rule norm_url_SomeE)
  define sc where "sc = pr_scheme parsed"
  have sc: "sc = ''http'' \<or> sc = ''https''" using s by (simp add: sc_def)
  from reparse [OF p s u, of "[]"] obtain p0 where p0: "urlparse env u [] = Inr p0"
    and n0: "pr_netloc p0 = pr_netloc parsed"
    by blast
  have host: "pr_netloc parsed \<noteq> []"
    using assms(3) p0 n0 by (simp add: netloc_of_def)
  have again: "\<exists>pu. urlparse env u sch = Inr pu \<and> pr_scheme pu = sc \<and> pr_netloc pu \<noteq> []
      \<and> urlunparse pu = u \<and> urlunparse (pu\<lparr>pr_fragment := []\<rparr>) = u" for sch
  proof -
    from reparse [OF p s u, of sch] obtain pu where "urlparse env u sch = Inr pu"
      and "pr_scheme pu = pr_scheme parsed" and "pr_netloc pu = pr_netloc parsed"
      and "pr_netloc parsed = [] \<or> urlunparse (pu\<lparr>pr_fragment := []\<rparr>) = u"
      and "pr_netloc parsed = [] \<or> urlunparse pu = u"
      by blast
    with host show ?thesis by (auto simp: sc_def)
  qed
  from urlparse_split [OF p] obtain sr where sr: "urlsplit env joined [] = Inr sr"
    and f: "pr_scheme parsed = sr_scheme sr"
    by blast
  have "u = web_text (sr_scheme sr) (sr_netloc sr) (reparam (sr_path sr)) (sr_query sr)"
    unfolding u using p sr s [unfolded f] by (rule urlunparse_web)
  then obtain t where t: "u = CHR ''h'' # CHR ''t'' # t"
    using web_text_head [OF s [unfolded f]] by metis
  have ne: "u \<noteq> []" using t by simp
  have nj: "\<not> startswith u ''javascript:''" "\<not> startswith u ''mailto:''"
    "\<not> startswith u ''tel:''"
    by (simp_all add: t startswith_def)
  have b: "base = [] \<or> (\<exists>b. urlparse env base [] = Inr b)"
    using j p by (rule urljoin_base)
  have again': "\<exists>pu. urlparse env u sch = Inr pu \<and> pr_scheme pu = sc \<and> pr_netloc pu \<noteq> []
      \<and> urlunparse pu = u" for sch
    using again [of sch] by auto
  have uj: "urljoin env base u = Inr u"
    using b ne again' sc by (rule urljoin_absolute)
  from again [of "[]"] obtain pu where pu: "urlparse env u [] = Inr pu"
    and g: "pr_scheme pu = sc" "urlunparse (pu\<lparr>pr_fragment := []\<rparr>) = u" by auto
  show ?thesis
    using ne nj uj pu g sc assms(2) by (auto simp: norm_url_def Let_def)
qed

subsection \<open>Examples\<close>

theorem C10_witness:
  "norm_url site_env ''http://a.com/'' (Some ''/b#x'') = Inr (Some ''http://a.com/b'')
   \<and> py_strip ''http://a.com/b'' = ''http://a.com/b''
   \<and> netloc_of site_env ''http://a.com/b'' \<noteq> []
   \<and> norm_url site_env ''http://a.com/'' (Some ''http://a.com/b'')
       = Inr (Some ''http://a.com/b'')"
proof -
  have a: "norm_url site_env ''http://a.com/'' (Some ''/b#x'') = Inr (Some ''http://a.com/b'')"
    by code_simp
  have b: "py_strip ''http://a.com/b'' = ''http://a.com/b''"
    by code_simp
  have c: "netloc_of site_env ''http://a.com/b'' \<noteq> []"
    by code_simp
  from C10_idempotent_on_hosted_outputs [OF a b c] a b c show ?thesis
    by (intro conjI)
qed

text \<open>
  An address that ends with a space comes back without it: the link \<open>http://a.com/x #f\<close>
  gives \<open>http://a.com/x\<close> followed by a space, which as a link gives \<open>http://a.com/x\<close>.
\<close>

theorem C10_counterexample:
  "norm_url site_env ''http://a.com/'' (Some ''http://a.com/x #f'')
     = Inr (Some ''http://a.com/x '')
   \<and> norm_url site_env ''http://a.com/'' (Some ''http://a.com/x '')
     = Inr (Some ''http://a.com/x'')"
  by code_simp

text \<open>
  An address without a network location is resolved against the base a second time: the
  dot segments of the base, kept by the first call, are removed by the second.
\<close>

lemma norm_url_hostless_example:
  "norm_url site_env ''http:///a/../b'' (Some ''?q'') = Inr (Some ''http:///a/../b?q'')
   \<and> netloc_of site_env ''http:///a/../b?q'' = []
   \<and> norm_url site_env ''http:///a/../b'' (Some ''http:///a/../b?q'')
     = Inr (Some ''http:///b?q'')"
  by code_simp


end
